theory Spec2Isabelle
  imports Complex_Main "HOL-Library.Char_ord" "HOL-Library.List_Lexorder"
begin

section \<open>Message text: \<open>MESSAGE_FORMAT\<close> and \<open>getIDFromMessage\<close> (newsBot.py)\<close>

text \<open>
  Python strings are modelled as \<open>string\<close>, one \<open>char\<close> per code point below 256.
  Python integers are \<open>int\<close>.  The line break is the character with code 10.
\<close>

definition newline :: char where
  "newline = CHR 0x0A"

definition isdigit :: "char \<Rightarrow> bool" where
  \<comment> \<open>the class \<open>\d\<close> of the regular expression; below code point 256 these are
      the ten ASCII digits\<close>
  "isdigit c = (48 \<le> (of_char c :: nat) \<and> (of_char c :: nat) \<le> 57)"

fun digits :: "nat \<Rightarrow> string" where
  "digits n = (if n < 10 then [char_of (48 + n)]
               else digits (n div 10) @ [char_of (48 + n mod 10)])"

declare digits.simps [simp del]

definition str_int :: "int \<Rightarrow> string" where
  \<comment> \<open>what \<open>str.format\<close> writes for an \<open>int\<close> field\<close>
  "str_int i = (if i < 0 then CHR ''-'' # digits (nat (- i)) else digits (nat i))"

definition int_of_digits :: "string \<Rightarrow> int" where
  \<comment> \<open>\<open>int(s)\<close> on a non-empty string of decimal digits\<close>
  "int_of_digits s = foldl (\<lambda>acc c. 10 * acc + int (of_char c - 48)) 0 s"

definition MESSAGE_FORMAT :: "string \<Rightarrow> int \<Rightarrow> string \<Rightarrow> string \<Rightarrow> string" where
  \<comment> \<open>\<open>MESSAGE_FORMAT.format(screenName=.., id=.., date=.., retweetStatus=..)\<close>\<close>
  "MESSAGE_FORMAT screenName ident date retweetStatus =
     ''URL: https://twitter.com/'' @ screenName @ ''/status/'' @ str_int ident @
     [newline] @ ''Date: '' @ date @ retweetStatus"

definition retweetStatus :: "bool \<Rightarrow> string" where
  \<comment> \<open>\<open>"\n<Retweet>" if post.retweeted_status else ""\<close>\<close>
  "retweetStatus rt = (if rt then newline # ''<Retweet>'' else [])"

definition format_post :: "string \<Rightarrow> int \<Rightarrow> string \<Rightarrow> bool \<Rightarrow> string" where
  "format_post screenName ident date rt =
     MESSAGE_FORMAT screenName ident date (retweetStatus rt)"

text \<open>
  \<open>DISCORD_MESSAGE_RE = re.compile(r"(\d+)$", re.M)\<close> and its \<open>search\<close>: the start
  positions are tried from left to right; at a position the greedy \<open>\d+\<close> takes the
  whole run of digits, and \<open>$\<close> (multi-line) holds at the end of the text and before a
  line break.  Giving digits back cannot help, since the character after a shorter run
  is a digit.
\<close>

fun DISCORD_MESSAGE_RE_search :: "string \<Rightarrow> string option" where
  "DISCORD_MESSAGE_RE_search [] = None"
| "DISCORD_MESSAGE_RE_search (c # cs) =
     (let run = takeWhile isdigit (c # cs); rest = dropWhile isdigit (c # cs)
      in if run \<noteq> [] \<and> (rest = [] \<or> hd rest = newline) then Some run
         else DISCORD_MESSAGE_RE_search cs)"

definition getIDFromMessage :: "string \<Rightarrow> int option" where
  "getIDFromMessage message =
     (case DISCORD_MESSAGE_RE_search message of
        Some g \<Rightarrow> Some (int_of_digits g)
      | None \<Rightarrow> None)"



fun digit_before_newline :: "string \<Rightarrow> bool" where
  \<comment> \<open>some line break of the text directly follows a digit\<close>
  "digit_before_newline (c # d # cs) =
     ((isdigit c \<and> d = newline) \<or> digit_before_newline (d # cs))"
| "digit_before_newline _ = False"


section \<open>The Discord client (discordClient.py)\<close>

datatype error =
    HTTPError          \<comment> \<open>\<open>raise_for_status\<close> on an error status\<close>
  | ConnectionError    \<comment> \<open>the request got no response\<close>
  | KeyError           \<comment> \<open>a key missing from a dictionary\<close>
  | ValueError         \<comment> \<open>a response body of another shape than the caller reads\<close>
  | IndexError
  | RuntimeError
  | TwitterError       \<comment> \<open>raised by the Twitter client\<close>

text \<open>\<open>ChannelTypes\<close>\<close>

definition GUILD_TEXT :: int where "GUILD_TEXT = 0"
definition GUILD_CATEGORY :: int where "GUILD_CATEGORY = 4"

text \<open>
  A channel object of the remote platform, with the keys the program reads (\<open>id\<close>,
  \<open>name\<close>, \<open>type\<close>, \<open>parent_id\<close>, where \<open>None\<close> is JSON \<open>null\<close>) and its position;
  two channel objects are compared as whole dictionaries.
\<close>

record channel =
  cid :: string
  cname :: string
  ctype :: int
  parent_id :: "string option"
  cposition :: int

datatype body =
    Channels "channel list"
  | Channel channel
  | Messages "string list"     \<comment> \<open>the \<open>content\<close> of each message, newest first\<close>
  | Nothing

text \<open>
  What the session returns for a request: the URL of the response, the two rate-limit
  headers when present, whether the status is a success, the decoded body, and the
  time the call took.
\<close>

record response =
  r_url :: string
  r_remaining :: "int option"
  r_reset :: "int option"
  r_ok :: bool
  r_json :: body
  r_elapsed :: real

datatype call =
    GetGuildChannels string
  | CreateGuildChannel string "string option" int "string option"
  | ModifyGuildChannelPositions string "(string \<times> nat) list"
  | CreateChannelMessage "string option" string
  | GetChannelMessages "string option" "nat option"

record rateLimit =
  remaining :: int
  reset :: int

text \<open>
  The client's state is its \<open>rateLimits\<close> dictionary.  The rest of the record is the
  world the client talks to: the clock read by \<open>time.time()\<close>, the responses the
  session will return (\<open>None\<close>: no response, the request raises), how many of them
  have been consumed, and the log of the requests issued, each with whether it came
  back with a success status.
\<close>

record DiscordClient =
  rateLimits :: "string \<rightharpoonup> rateLimit"
  clock :: real
  replies :: "nat \<Rightarrow> response option"
  served :: nat
  calls :: "(call \<times> bool) list"

record Route =
  path_before :: string    \<comment> \<open>the path up to the \<open>{}\<close>\<close>
  path_after :: string     \<comment> \<open>the path after it\<close>

definition BASE_URL :: string where
  "BASE_URL = ''https://discordapp.com/api''"

definition CHANNEL_MESSAGES :: Route where
  "CHANNEL_MESSAGES = \<lparr>path_before = BASE_URL @ ''/channels/'', path_after = ''/messages''\<rparr>"

definition GUILD_CHANNELS :: Route where
  "GUILD_CHANNELS = \<lparr>path_before = BASE_URL @ ''/guilds/'', path_after = ''/channels''\<rparr>"

definition makeURL :: "Route \<Rightarrow> string option \<Rightarrow> string" where
  "makeURL r formatID =
     (case formatID of
        None \<Rightarrow> path_before r @ ''{}'' @ path_after r
      | Some i \<Rightarrow> path_before r @ i @ path_after r)"

definition request :: "call \<Rightarrow> DiscordClient \<Rightarrow> response option \<times> DiscordClient" where
  \<comment> \<open>\<open>self.session.get/post/patch\<close>\<close>
  "request c d =
     (case replies d (served d) of
        None \<Rightarrow> (None, d\<lparr>served := Suc (served d), calls := calls d @ [(c, False)]\<rparr>)
      | Some r \<Rightarrow> (Some r, d\<lparr>served := Suc (served d), calls := calls d @ [(c, r_ok r)],
                               clock := clock d + r_elapsed r\<rparr>))"

definition checkResponse :: "response \<Rightarrow> DiscordClient \<Rightarrow> (error + body) \<times> DiscordClient" where
  "checkResponse r d =
     (case r_remaining r of
        None \<Rightarrow> (if r_ok r then Inr (r_json r) else Inl HTTPError, d)
      | Some rem \<Rightarrow>
          (case r_reset r of
             None \<Rightarrow> (Inl KeyError, d)
           | Some res \<Rightarrow>
               (if r_ok r then Inr (r_json r) else Inl HTTPError,
                d\<lparr>rateLimits := (rateLimits d)(r_url r \<mapsto> \<lparr>remaining = rem, reset = res\<rparr>)\<rparr>)))"

definition atRateLimit :: "string \<Rightarrow> DiscordClient \<Rightarrow> bool" where
  "atRateLimit url d =
     (case rateLimits d url of
        Some rl \<Rightarrow>
          (if remaining rl = 0
           then (if real_of_int (reset rl) < clock d then False else True)
           else False)
      | None \<Rightarrow> False)"

definition checked :: "call \<Rightarrow> DiscordClient \<Rightarrow> (error + body) \<times> DiscordClient" where
  \<comment> \<open>\<open>self.checkResponse(self.session...(...))\<close>\<close>
  "checked c d =
     (case request c d of
        (None, d1) \<Rightarrow> (Inl ConnectionError, d1)
      | (Some r, d1) \<Rightarrow> checkResponse r d1)"

definition createChannelMessage ::
  "string option \<Rightarrow> string \<Rightarrow> DiscordClient \<Rightarrow> (error + body) \<times> DiscordClient" where
  "createChannelMessage channelID content d = checked (CreateChannelMessage channelID content) d"

definition getChannelMessages ::
  "string option \<Rightarrow> nat option \<Rightarrow> DiscordClient \<Rightarrow> (error + body) \<times> DiscordClient" where
  "getChannelMessages channelID count d = checked (GetChannelMessages channelID count) d"

definition createGuildChannel ::
  "string \<Rightarrow> string option \<Rightarrow> int \<Rightarrow> string option \<Rightarrow> DiscordClient
     \<Rightarrow> (error + body) \<times> DiscordClient" where
  "createGuildChannel guildID name channelType parentID d =
     checked (CreateGuildChannel guildID name channelType parentID) d"

definition getGuildChannels :: "string \<Rightarrow> DiscordClient \<Rightarrow> (error + body) \<times> DiscordClient" where
  "getGuildChannels guildID d = checked (GetGuildChannels guildID) d"

definition modifyGuildChannelPositions ::
  "string \<Rightarrow> (string \<times> nat) list \<Rightarrow> DiscordClient \<Rightarrow> error option \<times> DiscordClient" where
  "modifyGuildChannelPositions guildID positionPairs d =
     (if length positionPairs = 0 then (None, d)
      else (case request (ModifyGuildChannelPositions guildID positionPairs) d of
              (None, d1) \<Rightarrow> (Some ConnectionError, d1)
            | (Some r, d1) \<Rightarrow> (if r_ok r then None else Some HTTPError, d1)))"

text \<open>
  The responses a client has processed so far, folded into the dictionary: what
  \<open>checkResponse\<close> leaves in \<open>rateLimits\<close> whether or not it goes on to raise.
\<close>

definition processed :: "response list \<Rightarrow> DiscordClient \<Rightarrow> DiscordClient" where
  "processed rs d = foldl (\<lambda>d r. snd (checkResponse r d)) d rs"

definition new_client :: "real \<Rightarrow> (nat \<Rightarrow> response option) \<Rightarrow> DiscordClient" where
  \<comment> \<open>\<open>DiscordClient.__init__\<close>: no rate limit recorded\<close>
  "new_client t rs = \<lparr>rateLimits = Map.empty, clock = t, replies = rs, served = 0, calls = []\<rparr>"


section \<open>The updater (newsBot.py, class \<open>TwitterUpdater\<close>)\<close>

record twitterList =
  lid :: int                      \<comment> \<open>\<open>"id"\<close>, the Twitter id of the list\<close>
  channelID :: "string option"    \<comment> \<open>\<open>"channelID"\<close>\<close>
  messages :: "string list"       \<comment> \<open>\<open>"messages"\<close>, oldest first\<close>

datatype task = SendMessages | DoUpdate

datatype event =
    Enter int int task       \<comment> \<open>\<open>scheduler.enter(delay, priority, action)\<close>\<close>
  | EnterAbs int int task    \<comment> \<open>\<open>scheduler.enterabs(time, priority, action)\<close>\<close>

record post =
  pid :: int
  created_at :: string
  screen_name :: string
  retweeted_status :: bool

datatype tw_call =
    GetLists
  | GetListTimeline int "int option" "nat option"    \<comment> \<open>\<open>list_id\<close>, \<open>since_id\<close>, \<open>count\<close>\<close>
  | CheckRateLimit string

datatype tw_reply =
    Lists "(string \<times> int) list"    \<comment> \<open>name and id of each list\<close>
  | Timeline "post list"           \<comment> \<open>newest first\<close>
  | Limit int                      \<comment> \<open>the \<open>reset\<close> of the endpoint\<close>
  | Raises

text \<open>The Twitter client, seen from the updater: the replies it will give and the calls made.\<close>

record TwitterApi =
  tw_replies :: "nat \<Rightarrow> tw_reply"
  tw_served :: nat
  tw_calls :: "tw_call list"

definition tw_request :: "tw_call \<Rightarrow> TwitterApi \<Rightarrow> tw_reply \<times> TwitterApi" where
  "tw_request c t =
     (tw_replies t (tw_served t), t\<lparr>tw_served := Suc (tw_served t), tw_calls := tw_calls t @ [c]\<rparr>)"

text \<open>
  \<open>twitterLists\<close> is a Python dictionary, iterated in insertion order: an association
  list.  \<open>scheduler\<close> is the list of the events entered so far.  \<open>guildID\<close> is the
  attribute that \<open>setup\<close> sets.
\<close>

record TwitterUpdater =
  scheduler :: "event list"
  discordClient :: DiscordClient
  twitterClient :: TwitterApi
  twitterLists :: "(string \<times> twitterList) list"
  categoryName :: "string option"
  sendingMessages :: bool
  guildID :: string

datatype outcome =
    Done             \<comment> \<open>ran to its end\<close>
  | Deferred         \<comment> \<open>returned early at a rate limit\<close>
  | Failed error     \<comment> \<open>left by an exception\<close>

text \<open>
  \<open>for listName in self.twitterLists: twitterList = self.twitterLists[listName]; ...\<close>
  The bodies of these loops read and write the entry at hand and never the dictionary
  itself, so the loop threads the entries and the caller stores them back when the loop
  ends, also when it ends by \<open>return\<close> or by an exception.  A body that answers
  \<open>Done\<close> lets the loop go on with the next entry.
\<close>

fun for_each_list ::
  "(string \<Rightarrow> twitterList \<Rightarrow> 's \<Rightarrow> outcome \<times> twitterList \<times> 's)
     \<Rightarrow> (string \<times> twitterList) list \<Rightarrow> 's \<Rightarrow> outcome \<times> (string \<times> twitterList) list \<times> 's" where
  "for_each_list body [] s = (Done, [], s)"
| "for_each_list body ((listName, twitterList) # rest) s =
     (case body listName twitterList s of
        (Done, twitterList', s') \<Rightarrow>
          (case for_each_list body rest s' of
             (out, rest', s'') \<Rightarrow> (out, (listName, twitterList') # rest', s''))
      | (out, twitterList', s') \<Rightarrow> (out, (listName, twitterList') # rest, s'))"

subsection \<open>\<open>updateTwitterLists\<close>\<close>

fun addLists :: "(string \<times> int) list \<Rightarrow> (string \<times> twitterList) list \<Rightarrow> (string \<times> twitterList) list" where
  "addLists [] tls = tls"
| "addLists ((name, i) # ls) tls =
     addLists ls
       (if name \<notin> set (map fst tls)
        then tls @ [(name, \<lparr>lid = i, channelID = None, messages = []\<rparr>)]
        else tls)"

definition updateTwitterLists :: "TwitterUpdater \<Rightarrow> outcome \<times> TwitterUpdater" where
  "updateTwitterLists u =
     (case tw_request GetLists (twitterClient u) of
        (Lists ls, t) \<Rightarrow>
          (Done, u\<lparr>twitterClient := t, twitterLists := addLists ls (twitterLists u)\<rparr>)
      | (Raises, t) \<Rightarrow> (Failed TwitterError, u\<lparr>twitterClient := t\<rparr>)
      | (_, t) \<Rightarrow> (Failed ValueError, u\<lparr>twitterClient := t\<rparr>))"

subsection \<open>\<open>checkMessageRateLimit\<close> and \<open>sendMessages\<close>\<close>

definition checkMessageRateLimit :: "string option \<Rightarrow> TwitterUpdater \<Rightarrow> bool \<times> TwitterUpdater" where
  "checkMessageRateLimit channel u =
     (if atRateLimit (makeURL CHANNEL_MESSAGES channel) (discordClient u)
      then (True, u\<lparr>scheduler := scheduler u @ [Enter 10 0 SendMessages]\<rparr>)
      else (False, u))"

text \<open>
  The inner loop of \<open>sendMessages\<close> over \<open>copiedMessages\<close>, with the list's own queue
  beside it: \<open>pop(0)\<close> removes the head of the queue and raises on an empty one.
\<close>

fun sendCopied ::
  "string option \<Rightarrow> string list \<Rightarrow> string list \<Rightarrow> TwitterUpdater
     \<Rightarrow> outcome \<times> string list \<times> TwitterUpdater" where
  "sendCopied channel [] queue u = (Done, queue, u)"
| "sendCopied channel (message # copiedMessages) queue u =
     (case checkMessageRateLimit channel u of
        (True, u1) \<Rightarrow> (Deferred, queue, u1)
      | (False, u1) \<Rightarrow>
          (case createChannelMessage channel message (discordClient u1) of
             (Inl e, d) \<Rightarrow> (Failed e, queue, u1\<lparr>discordClient := d\<rparr>)
           | (Inr _, d) \<Rightarrow>
               (case queue of
                  [] \<Rightarrow> (Failed IndexError, queue, u1\<lparr>discordClient := d\<rparr>)
                | _ # queue' \<Rightarrow> sendCopied channel copiedMessages queue' (u1\<lparr>discordClient := d\<rparr>))))"

definition sendList ::
  "string \<Rightarrow> twitterList \<Rightarrow> TwitterUpdater \<Rightarrow> outcome \<times> twitterList \<times> TwitterUpdater" where
  "sendList listName twitterList u =
     (case sendCopied (channelID twitterList) (messages twitterList) (messages twitterList) u of
        (out, queue, u') \<Rightarrow> (out, twitterList\<lparr>messages := queue\<rparr>, u'))"

definition sendMessages :: "TwitterUpdater \<Rightarrow> outcome \<times> TwitterUpdater" where
  "sendMessages u =
     (let u0 = u\<lparr>sendingMessages := True\<rparr>
      in case for_each_list sendList (twitterLists u0) u0 of
           (Done, tls, u1) \<Rightarrow> (Done, u1\<lparr>twitterLists := tls, sendingMessages := False\<rparr>)
         | (out, tls, u1) \<Rightarrow> (out, u1\<lparr>twitterLists := tls\<rparr>))"


subsection \<open>\<open>channelMaintenance\<close>\<close>

definition lower_char :: "char \<Rightarrow> char" where
  \<comment> \<open>\<open>str.lower\<close> on one code point below 256\<close>
  "lower_char c =
     (let n = (of_char c :: nat)
      in if (65 \<le> n \<and> n \<le> 90) \<or> (192 \<le> n \<and> n \<le> 214) \<or> (216 \<le> n \<and> n \<le> 222)
         then char_of (n + 32) else c)"

definition lower :: "string \<Rightarrow> string" where
  "lower s = map lower_char s"

text \<open>
  \<open>while self.discordClient.atRateLimit(url): time.sleep(10)\<close>: no request is made in
  the loop, so only the clock moves.
\<close>

function awaitRateLimit :: "string \<Rightarrow> DiscordClient \<Rightarrow> DiscordClient" where
  "awaitRateLimit url d =
     (if atRateLimit url d then awaitRateLimit url (d\<lparr>clock := clock d + 10\<rparr>) else d)"
  by pat_completeness auto

termination awaitRateLimit
proof (relation "measure (\<lambda>(url, d). case rateLimits d url of None \<Rightarrow> 0
            | Some rl \<Rightarrow> nat (\<lceil>real_of_int (reset rl) - clock d\<rceil> + 1))")
  show "wf (measure (\<lambda>(url, d). case rateLimits d url of None \<Rightarrow> 0
            | Some rl \<Rightarrow> nat (\<lceil>real_of_int (reset rl) - clock d\<rceil> + 1)))"
    by simp
next
  fix url d
  assume "atRateLimit url d"
  then obtain rl where rl: "rateLimits d url = Some rl"
    and le: "clock d \<le> real_of_int (reset rl)"
    by (auto simp: atRateLimit_def split: option.splits if_splits)
  have "\<lceil>real_of_int (reset rl) - (clock d + 10)\<rceil> = \<lceil>real_of_int (reset rl) - clock d\<rceil> - 10"
  proof -
    have "real_of_int (reset rl) - (clock d + 10) = (real_of_int (reset rl) - clock d) - 10"
      by simp
    then show ?thesis by (simp only: ceiling_diff_numeral)
  qed
  moreover have "0 \<le> \<lceil>real_of_int (reset rl) - clock d\<rceil>" using le by simp
  ultimately show "((url, d\<lparr>clock := clock d + 10\<rparr>), (url, d)) \<in>
      measure (\<lambda>(url, d). case rateLimits d url of None \<Rightarrow> 0
            | Some rl \<Rightarrow> nat (\<lceil>real_of_int (reset rl) - clock d\<rceil> + 1))"
    using rl by simp
qed

declare awaitRateLimit.simps [simp del]

definition findCategory :: "string option \<Rightarrow> channel list \<Rightarrow> channel option" where
  \<comment> \<open>the first loop: every match is assigned, the last one stays\<close>
  "findCategory name currentChannels =
     foldl (\<lambda>channelCategory channel.
              if ctype channel = GUILD_CATEGORY \<and> Some (cname channel) = name
              then Some channel else channelCategory)
       None currentChannels"

definition ensureCategory ::
  "channel list \<Rightarrow> TwitterUpdater \<Rightarrow> (error + channel) \<times> TwitterUpdater" where
  "ensureCategory currentChannels u =
     (case findCategory (categoryName u) currentChannels of
        Some channelCategory \<Rightarrow> (Inr channelCategory, u)
      | None \<Rightarrow>
          (case createGuildChannel (guildID u) (categoryName u) GUILD_CATEGORY None
                  (discordClient u) of
             (Inl e, d) \<Rightarrow> (Inl e, u\<lparr>discordClient := d\<rparr>)
           | (Inr (Channel channelCategory), d) \<Rightarrow> (Inr channelCategory, u\<lparr>discordClient := d\<rparr>)
           | (Inr _, d) \<Rightarrow> (Inl ValueError, u\<lparr>discordClient := d\<rparr>)))"

text \<open>
  The body of the loop over the lists; its state is \<open>currentChannels\<close> and the updater.
\<close>

definition bindList ::
  "channel \<Rightarrow> string \<Rightarrow> twitterList \<Rightarrow> channel list \<times> TwitterUpdater
     \<Rightarrow> outcome \<times> twitterList \<times> channel list \<times> TwitterUpdater" where
  "bindList channelCategory listName twitterList s =
     (case s of (currentChannels, u) \<Rightarrow>
        (case channelID twitterList of
           Some _ \<Rightarrow> (Done, twitterList, currentChannels, u)
         | None \<Rightarrow>
             (case find (\<lambda>channel. parent_id channel = Some (cid channelCategory)
                                   \<and> cname channel = lower listName) currentChannels of
                Some channel \<Rightarrow>
                  (Done, twitterList\<lparr>channelID := Some (cid channel)\<rparr>, currentChannels, u)
              | None \<Rightarrow>
                  (let d = awaitRateLimit (makeURL GUILD_CHANNELS (Some (guildID u)))
                             (discordClient u)
                   in case createGuildChannel (guildID u) (Some listName) GUILD_TEXT
                             (Some (cid channelCategory)) d of
                        (Inl e, d') \<Rightarrow>
                          (Failed e, twitterList, currentChannels, u\<lparr>discordClient := d'\<rparr>)
                      | (Inr (Channel created), d') \<Rightarrow>
                          (Done, twitterList\<lparr>channelID := Some (cid created)\<rparr>,
                           currentChannels @ [created], u\<lparr>discordClient := d'\<rparr>)
                      | (Inr _, d') \<Rightarrow>
                          (Failed ValueError, twitterList, currentChannels,
                           u\<lparr>discordClient := d'\<rparr>)))))"

text \<open>
  \<open>channelMaintenance\<close> up to the end of the loop over the lists: the outcome, the
  final \<open>currentChannels\<close> and the updater.
\<close>

definition createMissing :: "TwitterUpdater \<Rightarrow> outcome \<times> channel list \<times> TwitterUpdater" where
  "createMissing u =
     (case getGuildChannels (guildID u) (discordClient u) of
        (Inl e, d) \<Rightarrow> (Failed e, [], u\<lparr>discordClient := d\<rparr>)
      | (Inr (Channels fetched), d) \<Rightarrow>
          (case ensureCategory fetched (u\<lparr>discordClient := d\<rparr>) of
             (Inl e, u1) \<Rightarrow> (Failed e, [], u1)
           | (Inr channelCategory, u1) \<Rightarrow>
               (let currentChannels =
                      filter (\<lambda>channel. parent_id channel = Some (cid channelCategory)) fetched
                in case for_each_list (bindList channelCategory) (twitterLists u1)
                          (currentChannels, u1) of
                     (out, tls, currentChannels', u2) \<Rightarrow>
                       (out, currentChannels', u2\<lparr>twitterLists := tls\<rparr>)))
      | (Inr _, d) \<Rightarrow> (Failed ValueError, [], u\<lparr>discordClient := d\<rparr>))"

definition positionPairs :: "channel list \<Rightarrow> channel list \<Rightarrow> (string \<times> nat) list" where
  \<comment> \<open>\<open>oldChannels\<close> and the sorted \<open>currentChannels\<close> have the same length\<close>
  "positionPairs oldChannels currentChannels =
     [(cid channel, i). (i, channel) \<leftarrow> enumerate 0 currentChannels, channel \<noteq> oldChannels ! i]"

definition channelMaintenance :: "TwitterUpdater \<Rightarrow> outcome \<times> TwitterUpdater" where
  "channelMaintenance u =
     (case createMissing u of
        (Done, currentChannels, u1) \<Rightarrow>
          (let oldChannels = currentChannels;
               currentChannels = sort_key cname currentChannels
           in case modifyGuildChannelPositions (guildID u1)
                     (positionPairs oldChannels currentChannels) (discordClient u1) of
                (None, d) \<Rightarrow> (Done, u1\<lparr>discordClient := d\<rparr>)
              | (Some e, d) \<Rightarrow> (Failed e, u1\<lparr>discordClient := d\<rparr>))
      | (out, _, u1) \<Rightarrow> (out, u1))"

subsection \<open>\<open>doUpdate\<close>\<close>

text \<open>
  The cursor of a list: \<open>Inr\<close> the \<open>lastPostID\<close>, or \<open>Inl\<close> how the body of the loop
  ends here (\<open>Done\<close> is the \<open>continue\<close>).
\<close>

definition lastPost ::
  "twitterList \<Rightarrow> TwitterUpdater \<Rightarrow> (outcome + int option) \<times> TwitterUpdater" where
  "lastPost twitterList u =
     (if length (messages twitterList) > 0
      then (Inr (getIDFromMessage (last (messages twitterList))), u)
      else (case checkMessageRateLimit (channelID twitterList) u of
              (True, u1) \<Rightarrow> (Inl Done, u1)
            | (False, u1) \<Rightarrow>
                (case getChannelMessages (channelID twitterList) (Some 1) (discordClient u1) of
                   (Inl e, d) \<Rightarrow> (Inl (Failed e), u1\<lparr>discordClient := d\<rparr>)
                 | (Inr (Messages ms), d) \<Rightarrow>
                     (Inr (case ms of [] \<Rightarrow> None | m # _ \<Rightarrow> getIDFromMessage m),
                      u1\<lparr>discordClient := d\<rparr>)
                 | (Inr _, d) \<Rightarrow> (Inl (Failed ValueError), u1\<lparr>discordClient := d\<rparr>))))"

definition fetchList ::
  "string \<Rightarrow> twitterList \<Rightarrow> TwitterUpdater \<Rightarrow> outcome \<times> twitterList \<times> TwitterUpdater" where
  "fetchList listName twitterList u =
     (case lastPost twitterList u of
        (Inl out, u1) \<Rightarrow> (out, twitterList, u1)
      | (Inr lastPostID, u1) \<Rightarrow>
          (case tw_request
                  (GetListTimeline (lid twitterList) lastPostID
                     (if lastPostID = None then Some 100 else None))
                  (twitterClient u1) of
             (Timeline posts, t) \<Rightarrow>
               (Done,
                twitterList\<lparr>messages := messages twitterList @
                   map (\<lambda>p. format_post (screen_name p) (pid p) (created_at p) (retweeted_status p))
                     (rev posts)\<rparr>,
                u1\<lparr>twitterClient := t\<rparr>)
           | (Raises, t) \<Rightarrow> (Failed TwitterError, twitterList, u1\<lparr>twitterClient := t\<rparr>)
           | (_, t) \<Rightarrow> (Failed ValueError, twitterList, u1\<lparr>twitterClient := t\<rparr>)))"

definition sendIfIdle :: "TwitterUpdater \<Rightarrow> outcome \<times> TwitterUpdater" where
  \<comment> \<open>\<open>if not self.sendingMessages: self.sendMessages()\<close>\<close>
  "sendIfIdle u = (if \<not> sendingMessages u then sendMessages u else (Done, u))"

definition scheduleNext :: "TwitterUpdater \<Rightarrow> outcome \<times> TwitterUpdater" where
  "scheduleNext u =
     (case tw_request (CheckRateLimit ''/lists/statuses.json'') (twitterClient u) of
        (Limit nextResetTime, t) \<Rightarrow>
          (Done, u\<lparr>twitterClient := t,
                   scheduler := scheduler u @ [EnterAbs (nextResetTime + 1) 0 DoUpdate]\<rparr>)
      | (Raises, t) \<Rightarrow> (Failed TwitterError, u\<lparr>twitterClient := t\<rparr>)
      | (_, t) \<Rightarrow> (Failed ValueError, u\<lparr>twitterClient := t\<rparr>))"

definition fetchAll :: "TwitterUpdater \<Rightarrow> outcome \<times> TwitterUpdater" where
  \<comment> \<open>the loop of \<open>doUpdate\<close> over the lists\<close>
  "fetchAll u =
     (case for_each_list fetchList (twitterLists u) u of
        (out, tls, u1) \<Rightarrow> (out, u1\<lparr>twitterLists := tls\<rparr>))"

definition doUpdate :: "TwitterUpdater \<Rightarrow> outcome \<times> TwitterUpdater" where
  "doUpdate u =
     (if categoryName u = None then (Failed RuntimeError, u)
      else (case updateTwitterLists u of
              (Done, u1) \<Rightarrow>
                (case channelMaintenance u1 of
                   (Done, u2) \<Rightarrow>
                     (case fetchAll u2 of
                        (Done, u3) \<Rightarrow>
                          (case sendIfIdle u3 of
                             (Failed e, u4) \<Rightarrow> (Failed e, u4)
                           | (_, u4) \<Rightarrow> scheduleNext u4)
                      | r \<Rightarrow> r)
                 | r \<Rightarrow> r)
            | r \<Rightarrow> r))"


subsection \<open>Reading the request log\<close>

definition sent :: "string option \<Rightarrow> string list \<Rightarrow> (call \<times> bool) list" where
  \<comment> \<open>the log of delivering these messages to a channel, one after the other\<close>
  "sent channel ms = map (\<lambda>m. (CreateChannelMessage channel m, True)) ms"

definition popped :: "twitterList \<Rightarrow> twitterList \<Rightarrow> string list" where
  \<comment> \<open>the front of the old queue that the new queue no longer has\<close>
  "popped e e' = take (length (messages e) - length (messages e')) (messages e)"

definition pass_log ::
  "(string \<times> twitterList) list \<Rightarrow> (string \<times> twitterList) list \<Rightarrow> (call \<times> bool) list" where
  \<comment> \<open>list after list, the delivery of what was popped from each queue\<close>
  "pass_log old new =
     concat (map (\<lambda>(old_entry, new_entry).
                    sent (channelID (snd old_entry)) (popped (snd old_entry) (snd new_entry)))
               (zip old new))"

definition ended ::
  "outcome \<Rightarrow> string option \<Rightarrow> string list \<Rightarrow> nat \<Rightarrow> TwitterUpdater \<Rightarrow> TwitterUpdater \<Rightarrow> bool" where
  \<comment> \<open>how the inner loop of \<open>sendMessages\<close> over a copy ended after \<open>k\<close> deliveries\<close>
  "ended out ch copied k u u' =
     (case out of
        Done \<Rightarrow> k = length copied \<and> scheduler u' = scheduler u \<and>
                calls (discordClient u') = calls (discordClient u) @ sent ch copied
      | Deferred \<Rightarrow> k < length copied \<and>
                scheduler u' = scheduler u @ [Enter 10 0 SendMessages] \<and>
                calls (discordClient u') = calls (discordClient u) @ sent ch (take k copied) \<and>
                atRateLimit (makeURL CHANNEL_MESSAGES ch) (discordClient u')
      | Failed e \<Rightarrow> k < length copied \<and> scheduler u' = scheduler u \<and> e \<noteq> IndexError \<and>
                (\<exists>b. calls (discordClient u') =
                      calls (discordClient u) @ sent ch (take k copied) @
                        [(CreateChannelMessage ch (copied ! k), b)]))"

definition drained_to :: "(string \<times> twitterList) \<Rightarrow> (string \<times> twitterList) \<Rightarrow> bool" where
  \<comment> \<open>the same list, with a front part of its queue popped and the rest as it was\<close>
  "drained_to old new =
     (fst new = fst old \<and> lid (snd new) = lid (snd old) \<and>
      channelID (snd new) = channelID (snd old) \<and>
      messages (snd old) = popped (snd old) (snd new) @ messages (snd new))"

definition bound_kept :: "(string \<times> twitterList) \<Rightarrow> (string \<times> twitterList) \<Rightarrow> bool" where
  \<comment> \<open>the same list (name and id), with its channel as it was unless it had none\<close>
  "bound_kept old new =
     (fst new = fst old \<and> lid (snd new) = lid (snd old) \<and>
      (channelID (snd old) = None \<or> channelID (snd new) = channelID (snd old)))"

definition kept ::
  "(string \<times> twitterList) list \<Rightarrow> (string \<times> twitterList) list \<Rightarrow> bool" where
  \<comment> \<open>every old entry is still there, in place, with its channel if it had one\<close>
  "kept old new =
     (length old \<le> length new \<and> list_all2 bound_kept old (take (length old) new))"

definition framed :: "TwitterUpdater \<Rightarrow> TwitterUpdater \<Rightarrow> bool" where
  \<comment> \<open>the flag, the category name, the guild and the Twitter client are as they were\<close>
  "framed u u' =
     (sendingMessages u' = sendingMessages u \<and> categoryName u' = categoryName u \<and>
      guildID u' = guildID u \<and> twitterClient u' = twitterClient u)"

definition bind_inv :: "channel list \<times> TwitterUpdater \<Rightarrow> channel list \<times> TwitterUpdater \<Rightarrow> bool" where
  \<comment> \<open>\<open>framed\<close>, with the lists and the scheduler as they were, on the state of the loop of \<open>channelMaintenance\<close>\<close>
  "bind_inv s s' =
     (framed (snd s) (snd s') \<and> twitterLists (snd s') = twitterLists (snd s) \<and>
      scheduler (snd s') = scheduler (snd s))"

definition fetch_inv :: "TwitterUpdater \<Rightarrow> TwitterUpdater \<Rightarrow> bool" where
  \<comment> \<open>what the loop of \<open>doUpdate\<close> over the lists leaves in the updater\<close>
  "fetch_inv u u' =
     (sendingMessages u' = sendingMessages u \<and> twitterLists u' = twitterLists u \<and>
      categoryName u' = categoryName u \<and> guildID u' = guildID u)"



definition replied_channels :: "DiscordClient \<Rightarrow> nat \<Rightarrow> nat \<Rightarrow> channel list" where
  \<comment> \<open>the channels that are the bodies of the responses number \<open>i\<close> up to \<open>j\<close>, \<open>j\<close> excluded\<close>
  "replied_channels d i j =
     concat (map (\<lambda>k. case replies d k of
                         Some r \<Rightarrow> (case r_json r of Channel c \<Rightarrow> [c] | _ \<Rightarrow> [])
                       | None \<Rightarrow> [])
               [i..<j])"

definition created_in ::
  "channel \<Rightarrow> string list \<Rightarrow> channel list \<times> TwitterUpdater \<Rightarrow> channel list \<times> TwitterUpdater
     \<Rightarrow> bool" where
  \<comment> \<open>between two states of the loop of \<open>channelMaintenance\<close>, the requests were the
      creations of text channels with these names under the category, each answered
      by a channel, and these channels were appended in order\<close>
  "created_in cat names s s' =
     (let d = discordClient (snd s); d' = discordClient (snd s')
      in fst s' = fst s @ replied_channels d (served d) (served d + length names) \<and>
         length (replied_channels d (served d) (served d + length names)) = length names \<and>
         replies d' = replies d \<and> served d' = served d + length names \<and>
         guildID (snd s') = guildID (snd s) \<and>
         calls d' =
           calls d @
             map (\<lambda>n. (CreateGuildChannel (guildID (snd s)) (Some n) GUILD_TEXT
                          (Some (cid cat)), True)) names)"

subsection \<open>\<open>__init__\<close>\<close>

definition new_twitter :: "(nat \<Rightarrow> tw_reply) \<Rightarrow> TwitterApi" where
  "new_twitter rs = \<lparr>tw_replies = rs, tw_served = 0, tw_calls = []\<rparr>"

definition new_updater :: "DiscordClient \<Rightarrow> TwitterApi \<Rightarrow> string \<Rightarrow> TwitterUpdater" where
  \<comment> \<open>\<open>TwitterUpdater.__init__\<close>, with the \<open>guildID\<close> that \<open>setup\<close> stores\<close>
  "new_updater d t g =
     \<lparr>scheduler = [], discordClient = d, twitterClient = t, twitterLists = [],
      categoryName = None, sendingMessages = False, guildID = g\<rparr>"


subsection \<open>Example states\<close>

definition reply_ok :: "string \<Rightarrow> int option \<Rightarrow> int option \<Rightarrow> body \<Rightarrow> response" where
  \<comment> \<open>a response with a success status\<close>
  "reply_ok url rem res b =
     \<lparr>r_url = url, r_remaining = rem, r_reset = res, r_ok = True, r_json = b, r_elapsed = 0\<rparr>"

definition messages_url :: "string \<Rightarrow> string" where
  "messages_url channel = makeURL CHANNEL_MESSAGES (Some channel)"

text \<open>
  One list with three queued messages; the first response to a message says that no
  call remains until time 100, the later ones carry no rate-limit header.
\<close>

definition ex_queue :: TwitterUpdater where
  "ex_queue =
     (new_updater
        (new_client 0 (\<lambda>n. if n = 0 then Some (reply_ok (messages_url ''7'') (Some 0) (Some 100) Nothing)
                             else Some (reply_ok (messages_url ''7'') None None Nothing)))
        (new_twitter (\<lambda>_. Raises)) ''g'')
     \<lparr>twitterLists := [(''News'', \<lparr>lid = 1, channelID = Some ''7'',
                                   messages = [''m1'', ''m2'', ''m3'']\<rparr>)],
      categoryName := Some ''Twitter For bot''\<rparr>"

definition later :: "real \<Rightarrow> TwitterUpdater \<Rightarrow> TwitterUpdater" where
  \<comment> \<open>the same updater when the clock shows \<open>t\<close>\<close>
  "later t u = u\<lparr>discordClient := (discordClient u)\<lparr>clock := t\<rparr>\<rparr>"

text \<open>
  Two lists with one queued message each; the channel of the first is rate limited
  until time 100, the channel of the second has no recorded limit.
\<close>

definition ex_two_lists :: TwitterUpdater where
  "ex_two_lists =
     (new_updater
        ((new_client 50 (\<lambda>n. Some (reply_ok (messages_url ''2'') None None Nothing)))
           \<lparr>rateLimits := [messages_url ''1'' \<mapsto> \<lparr>remaining = 0, reset = 100\<rparr>]\<rparr>)
        (new_twitter (\<lambda>_. Raises)) ''g'')
     \<lparr>twitterLists := [(''Alpha'', \<lparr>lid = 1, channelID = Some ''1'', messages = [''a'']\<rparr>),
                       (''Beta'', \<lparr>lid = 2, channelID = Some ''2'', messages = [''b'']\<rparr>)],
      categoryName := Some ''Twitter For bot''\<rparr>"


text \<open>
  Three lists with one queued message each; only the channel of the second is rate
  limited, until time 100.
\<close>

definition ex_three_lists :: TwitterUpdater where
  "ex_three_lists =
     (new_updater
        ((new_client 50 (\<lambda>n. Some (reply_ok (messages_url ''1'') None None Nothing)))
           \<lparr>rateLimits := [messages_url ''2'' \<mapsto> \<lparr>remaining = 0, reset = 100\<rparr>]\<rparr>)
        (new_twitter (\<lambda>_. Raises)) ''g'')
     \<lparr>twitterLists := [(''Alpha'', \<lparr>lid = 1, channelID = Some ''1'', messages = [''a'']\<rparr>),
                       (''Beta'', \<lparr>lid = 2, channelID = Some ''2'', messages = [''b'']\<rparr>),
                       (''Gamma'', \<lparr>lid = 3, channelID = Some ''3'', messages = [''c'']\<rparr>)],
      categoryName := Some ''Twitter For bot''\<rparr>"

text \<open>
  A guild with the category and one channel in it, a list bound to that channel with
  nothing queued, and a Twitter client that knows this list, with one new post, and a
  second list, for which the channel is created.
\<close>

definition ex_category :: channel where
  "ex_category = \<lparr>cid = ''c'', cname = ''Twitter For bot'', ctype = GUILD_CATEGORY,
                   parent_id = None, cposition = 0\<rparr>"

definition text_channel :: "string \<Rightarrow> string \<Rightarrow> int \<Rightarrow> channel" where
  \<comment> \<open>a text channel under the category\<close>
  "text_channel i name pos =
     \<lparr>cid = i, cname = name, ctype = GUILD_TEXT, parent_id = Some ''c'', cposition = pos\<rparr>"

definition guild_url :: string where
  "guild_url = makeURL GUILD_CHANNELS (Some ''g'')"

definition ex_update :: TwitterUpdater where
  "ex_update =
     (new_updater
        (new_client 0
           (\<lambda>n. if n = 0 then Some (reply_ok guild_url None None
                                       (Channels [ex_category, text_channel ''7'' ''news'' 0]))
                 else if n = 1 then Some (reply_ok guild_url None None
                                            (Channel (text_channel ''8'' ''sport'' 1)))
                 else if n = 2 then Some (reply_ok (messages_url ''7'') None None (Messages []))
                 else if n = 3 then Some (reply_ok (messages_url ''8'') None None (Messages []))
                 else Some (reply_ok (messages_url ''7'') None None Nothing)))
        (new_twitter
           (\<lambda>n. if n = 0 then Lists [(''news'', 1), (''sport'', 2)]
                 else if n = 1 then Timeline [\<lparr>pid = 5, created_at = ''Mon'',
                                               screen_name = ''bob'', retweeted_status = False\<rparr>]
                 else if n = 2 then Timeline []
                 else Limit 1000))
        ''g'')
     \<lparr>twitterLists := [(''news'', \<lparr>lid = 1, channelID = Some ''7'', messages = []\<rparr>)],
      categoryName := Some ''Twitter For bot''\<rparr>"


text \<open>
  A guild whose three channels under the category are bound to three lists.  In
  \<open>ex_sorted\<close> the guild lists them in the order of their names.  In \<open>ex_unsorted\<close> it
  lists them in another order, the same at every listing; the second listing shows
  the positions that the first reposition request asked for.
\<close>

definition bound_lists :: "(string \<times> twitterList) list" where
  "bound_lists =
     [(''Zeta'', \<lparr>lid = 1, channelID = Some ''1'', messages = []\<rparr>),
      (''Alpha'', \<lparr>lid = 2, channelID = Some ''2'', messages = []\<rparr>),
      (''Mike'', \<lparr>lid = 3, channelID = Some ''3'', messages = []\<rparr>)]"

definition ex_sorted :: TwitterUpdater where
  "ex_sorted =
     (new_updater
        (new_client 0
           (\<lambda>n. Some (reply_ok guild_url None None
                        (Channels [ex_category, text_channel ''2'' ''Alpha'' 0,
                                   text_channel ''3'' ''Mike'' 1, text_channel ''1'' ''Zeta'' 2]))))
        (new_twitter (\<lambda>_. Raises)) ''g'')
     \<lparr>twitterLists := bound_lists, categoryName := Some ''Twitter For bot''\<rparr>"

definition ex_unsorted :: TwitterUpdater where
  "ex_unsorted =
     (new_updater
        (new_client 0
           (\<lambda>n. if n = 0 then Some (reply_ok guild_url None None
                        (Channels [ex_category, text_channel ''1'' ''Zeta'' 0,
                                   text_channel ''2'' ''Alpha'' 1, text_channel ''3'' ''Mike'' 2]))
                 else if n = 2 then Some (reply_ok guild_url None None
                        (Channels [ex_category, text_channel ''1'' ''Zeta'' 2,
                                   text_channel ''2'' ''Alpha'' 0, text_channel ''3'' ''Mike'' 1]))
                 else Some (reply_ok guild_url None None Nothing)))
        (new_twitter (\<lambda>_. Raises)) ''g'')
     \<lparr>twitterLists := bound_lists, categoryName := Some ''Twitter For bot''\<rparr>"


text \<open>
  The same guild, listing its channels by position.  The positions start at 3, 4, 5;
  the second listing shows positions 1 and 2 for the two channels that the first
  reposition request named.
\<close>

definition ex_by_position :: TwitterUpdater where
  "ex_by_position =
     (new_updater
        (new_client 0
           (\<lambda>n. if n = 0 then Some (reply_ok guild_url None None
                        (Channels [ex_category, text_channel ''2'' ''Alpha'' 3,
                                   text_channel ''1'' ''Zeta'' 4, text_channel ''3'' ''Mike'' 5]))
                 else if n = 2 then Some (reply_ok guild_url None None
                        (Channels [ex_category, text_channel ''3'' ''Mike'' 1,
                                   text_channel ''1'' ''Zeta'' 2, text_channel ''2'' ''Alpha'' 3]))
                 else Some (reply_ok guild_url None None Nothing)))
        (new_twitter (\<lambda>_. Raises)) ''g'')
     \<lparr>twitterLists := bound_lists, categoryName := Some ''Twitter For bot''\<rparr>"


text \<open>
  A guild with the category and one channel in it, bound to the first of two lists;
  the channel of the second list is created, and its name comes first.
\<close>

definition ex_create :: TwitterUpdater where
  "ex_create =
     (new_updater
        (new_client 0
           (\<lambda>n. if n = 0 then Some (reply_ok guild_url None None
                                       (Channels [ex_category, text_channel ''7'' ''news'' 0]))
                 else if n = 1 then Some (reply_ok guild_url None None
                                            (Channel (text_channel ''9'' ''alpha'' 1)))
                 else Some (reply_ok guild_url None None Nothing)))
        (new_twitter (\<lambda>_. Raises)) ''g'')
     \<lparr>twitterLists := [(''news'', \<lparr>lid = 1, channelID = Some ''7'', messages = []\<rparr>),
                       (''alpha'', \<lparr>lid = 2, channelID = None, messages = []\<rparr>)],
      categoryName := Some ''Twitter For bot''\<rparr>"


section \<open>Properties of the message text\<close>

lemma digits_not_Nil: "digits n \<noteq> []"
  by (subst digits.simps) simp

lemma isdigit_char_of: "k < 10 \<Longrightarrow> isdigit (char_of (48 + (k::nat)))"
  by (simp add: isdigit_def of_char_of)

lemma digit_value: "k < 10 \<Longrightarrow> of_char (char_of (48 + (k::nat))) - 48 = k"
  by (simp add: of_char_of)

lemma digits_isdigit: "c \<in> set (digits n) \<Longrightarrow> isdigit c"
proof (induction n arbitrary: c rule: digits.induct)
  case (1 n)
  show ?case
  proof (cases "n < 10")
    case True
    with "1.prems" show ?thesis
      by (subst (asm) digits.simps) (simp add: isdigit_char_of)
  next
    case False
    with "1.prems" have "c \<in> set (digits (n div 10)) \<or> c = char_of (48 + n mod 10)"
      by (subst (asm) digits.simps) auto
    then show ?thesis
      using "1.IH" False by (auto simp: isdigit_char_of)
  qed
qed

lemma int_of_digits_snoc:
  "int_of_digits (s @ [c]) = 10 * int_of_digits s + int (of_char c - 48)"
  by (simp add: int_of_digits_def)

lemma int_of_digits_digits: "int_of_digits (digits n) = int n"
proof (induction n rule: digits.induct)
  case (1 n)
  show ?case
  proof (cases "n < 10")
    case True
    then show ?thesis
      by (subst digits.simps) (simp add: int_of_digits_def of_char_of)
  next
    case False
    then have "int_of_digits (digits n) = 10 * int (n div 10) + int (n mod 10)"
      using "1.IH" by (subst digits.simps) (simp add: int_of_digits_snoc of_char_of)
    moreover have "int (10 * (n div 10) + n mod 10) = int n" by simp
    ultimately show ?thesis by (simp only: of_nat_add of_nat_mult of_nat_numeral)
  qed
qed

lemma newline_not_digit: "\<not> isdigit newline"
  by (simp add: isdigit_def newline_def)

text \<open>A run of digits that ends at a line break or at the end of the text is found at its start.\<close>

lemma search_run:
  assumes "ds \<noteq> []" "\<forall>c\<in>set ds. isdigit c" "rest = [] \<or> hd rest = newline"
  shows "DISCORD_MESSAGE_RE_search (ds @ rest) = Some ds"
proof -
  obtain c cs where ds: "ds = c # cs" using assms(1) by (cases ds) auto
  have tw: "takeWhile isdigit (ds @ rest) = ds"
    using assms(2,3) newline_not_digit by (cases rest) (auto simp: takeWhile_append2)
  have dw: "dropWhile isdigit (ds @ rest) = rest"
    using assms(2,3) newline_not_digit by (cases rest) (auto simp: dropWhile_append2)
  show ?thesis
    using tw dw assms(1,3) unfolding ds by (simp add: Let_def)
qed

lemma search_skip_nondigit:
  "\<not> isdigit c \<Longrightarrow> DISCORD_MESSAGE_RE_search (c # cs) = DISCORD_MESSAGE_RE_search cs"
  by simp

lemma search_skip_digit:
  assumes "dropWhile isdigit cs = x # r" "x \<noteq> newline"
  shows "DISCORD_MESSAGE_RE_search (c # cs) = DISCORD_MESSAGE_RE_search cs"
  using assms by (simp add: Let_def)


lemma dbn_tl: "\<not> digit_before_newline (c # p) \<Longrightarrow> \<not> digit_before_newline p"
  by (cases p) auto

lemma dbn_Cons:
  "digit_before_newline (c # s) =
     ((isdigit c \<and> s \<noteq> [] \<and> hd s = newline) \<or> digit_before_newline s)"
  by (cases s) auto

lemma dbn_append:
  "digit_before_newline (a @ b) =
     (digit_before_newline a \<or> digit_before_newline b \<or>
      (a \<noteq> [] \<and> b \<noteq> [] \<and> isdigit (last a) \<and> hd b = newline))"
proof (induction a)
  case Nil
  then show ?case by simp
next
  case (Cons c a)
  show ?case
    unfolding append_Cons dbn_Cons [of c "a @ b"] dbn_Cons [of c a] Cons.IH
    by (cases a) auto
qed

lemma no_newline_dbn: "newline \<notin> set s \<Longrightarrow> \<not> digit_before_newline s"
  by (induction s rule: digit_before_newline.induct) auto

lemma run_stops_inside:
  assumes "isdigit c" "\<not> digit_before_newline (c # p)" "p \<noteq> []" "\<not> isdigit (last p)"
  shows "\<exists>x r. dropWhile isdigit (p @ s) = x # r \<and> x \<noteq> newline"
  using assms
proof (induction p arbitrary: c)
  case Nil
  then show ?case by simp
next
  case (Cons d p)
  from Cons.prems(1,2) have d: "d \<noteq> newline" and nd: "\<not> digit_before_newline (d # p)"
    by auto
  show ?case
  proof (cases "isdigit d")
    case False
    then show ?thesis using d by simp
  next
    case True
    with Cons.prems(4) have "p \<noteq> []" by auto
    moreover from this Cons.prems(4) have "\<not> isdigit (last p)" by simp
    ultimately show ?thesis using Cons.IH [OF True nd] True by simp
  qed
qed

lemma search_skip_prefix:
  assumes "\<not> digit_before_newline p" "p = [] \<or> \<not> isdigit (last p)"
  shows "DISCORD_MESSAGE_RE_search (p @ s) = DISCORD_MESSAGE_RE_search s"
  using assms
proof (induction p)
  case Nil
  then show ?case by simp
next
  case (Cons c p)
  have nd: "\<not> digit_before_newline p" using Cons.prems(1) by (rule dbn_tl)
  have lp: "p = [] \<or> \<not> isdigit (last p)" using Cons.prems(2) by (cases p) auto
  show ?case
  proof (cases "isdigit c")
    case False
    then show ?thesis using Cons.IH [OF nd lp] by simp
  next
    case True
    with Cons.prems(2) have pne: "p \<noteq> []" by auto
    with Cons.prems(2) have "\<not> isdigit (last p)" by simp
    from run_stops_inside [OF True Cons.prems(1) pne this]
    obtain x r where "dropWhile isdigit (p @ s) = x # r" "x \<noteq> newline" by blast
    then have "DISCORD_MESSAGE_RE_search (c # (p @ s)) = DISCORD_MESSAGE_RE_search (p @ s)"
      by (rule search_skip_digit)
    then show ?thesis using Cons.IH [OF nd lp] by simp
  qed
qed

lemma url_prefix_ok:
  assumes "\<not> digit_before_newline screenName"
  shows "\<not> digit_before_newline (''URL: https://twitter.com/'' @ screenName @ ''/status/'')"
    and "\<not> isdigit (last (''URL: https://twitter.com/'' @ screenName @ ''/status/''))"
proof -
  have "\<not> digit_before_newline (screenName @ ''/status/'')"
    using assms by (simp add: dbn_append isdigit_def newline_def)
  then show "\<not> digit_before_newline (''URL: https://twitter.com/'' @ screenName @ ''/status/'')"
    by (simp add: dbn_Cons isdigit_def newline_def del: digit_before_newline.simps)
  show "\<not> isdigit (last (''URL: https://twitter.com/'' @ screenName @ ''/status/''))"
    by (simp add: isdigit_def)
qed

lemma search_format:
  assumes "0 \<le> ident" "\<not> digit_before_newline screenName"
  shows "DISCORD_MESSAGE_RE_search (format_post screenName ident date rt) = Some (str_int ident)"
proof -
  let ?p = "''URL: https://twitter.com/'' @ screenName @ ''/status/''"
  let ?ds = "digits (nat ident)"
  let ?rest = "newline # ''Date: '' @ date @ retweetStatus rt"
  have eq: "format_post screenName ident date rt = ?p @ (?ds @ ?rest)"
    using assms(1) by (simp add: format_post_def MESSAGE_FORMAT_def str_int_def)
  have "DISCORD_MESSAGE_RE_search (?p @ (?ds @ ?rest)) = DISCORD_MESSAGE_RE_search (?ds @ ?rest)"
    using url_prefix_ok [OF assms(2)] by (intro search_skip_prefix) auto
  also have "\<dots> = Some ?ds"
    by (rule search_run) (auto simp: digits_not_Nil digits_isdigit)
  finally show ?thesis using assms(1) by (simp add: eq str_int_def)
qed

lemma getID_format:
  assumes "0 \<le> ident" "\<not> digit_before_newline screenName"
  shows "getIDFromMessage (format_post screenName ident date rt) = Some ident"
  using search_format [OF assms] assms(1)
  by (simp add: getIDFromMessage_def str_int_def int_of_digits_digits)

subsection \<open>Claim C4\<close>

text \<open>
  C4.  An item identifier is the id of a Twitter status, a natural number, and an
  author handle is a Twitter screen name, which has no line break.  For every such
  identifier (in particular 123456789) and handle, every creation date and every
  repost flag, formatting the message text with \<open>MESSAGE_FORMAT\<close> and parsing it with
  \<open>getIDFromMessage\<close> gives back exactly the identifier.
\<close>

theorem format_parse_roundtrip:
  assumes "newline \<notin> set screenName"
  shows "getIDFromMessage (format_post screenName (int n) date rt) = Some (int n) \<and>
         getIDFromMessage (format_post screenName 123456789 date rt) = Some 123456789"
proof -
  have h: "\<not> digit_before_newline screenName" using assms by (rule no_newline_dbn)
  have "getIDFromMessage (format_post screenName (int n) date rt) = Some (int n)"
    by (rule getID_format [OF _ h]) simp
  moreover have "getIDFromMessage (format_post screenName 123456789 date rt) = Some 123456789"
    by (rule getID_format [OF _ h]) simp
  ultimately show ?thesis by (rule conjI)
qed

theorem format_parse_roundtrip_witness:
  "newline \<notin> set ''bob'' \<and>
   getIDFromMessage (format_post ''bob'' (int 42) ''Wed Oct 10 20:19:24 +0000 2018'' True)
     = Some (int 42) \<and>
   getIDFromMessage (format_post ''bob'' 123456789 ''Wed Oct 10 20:19:24 +0000 2018'' True)
     = Some 123456789"
proof -
  have a: "newline \<notin> set ''bob''" by (simp add: newline_def)
  show ?thesis
    using a format_parse_roundtrip [OF a, of 42 "''Wed Oct 10 20:19:24 +0000 2018''" True]
    by simp
qed







subsection \<open>Claim C7\<close>





section \<open>Properties of the rate-limit record\<close>

lemma checkResponse_other_url:
  assumes "rateLimits d url = None" "r_url r = url \<longrightarrow> r_remaining r = None"
  shows "rateLimits (snd (checkResponse r d)) url = None"
  using assms by (auto simp: checkResponse_def split: option.splits)

lemma checkResponse_clock: "clock (snd (checkResponse r d)) = clock d"
  by (simp add: checkResponse_def split: option.splits)

lemma processed_other_url:
  assumes "rateLimits d url = None" "\<forall>r\<in>set rs. r_url r = url \<longrightarrow> r_remaining r = None"
  shows "rateLimits (processed rs d) url = None"
  using assms
proof (induction rs arbitrary: d)
  case Nil
  then show ?case by (simp add: processed_def)
next
  case (Cons r rs)
  have "rateLimits (snd (checkResponse r d)) url = None"
    using Cons.prems by (intro checkResponse_other_url) auto
  from Cons.IH [OF this] Cons.prems(2) show ?case by (simp add: processed_def)
qed

lemma checked_other_url:
  assumes "rateLimits d url = None"
    and "\<forall>r. replies d (served d) = Some r \<longrightarrow> r_url r = url \<longrightarrow> r_remaining r = None"
  shows "rateLimits (snd (checked c d)) url = None"
proof (cases "replies d (served d)")
  case None
  then show ?thesis using assms(1) by (simp add: checked_def request_def)
next
  case (Some r)
  let ?d1 = "d\<lparr>served := Suc (served d), calls := calls d @ [(c, r_ok r)],
                clock := clock d + r_elapsed r\<rparr>"
  have "rateLimits ?d1 url = None" using assms(1) by simp
  moreover have "r_url r = url \<longrightarrow> r_remaining r = None" using assms(2) Some by simp
  ultimately have "rateLimits (snd (checkResponse r ?d1)) url = None"
    by (rule checkResponse_other_url)
  then show ?thesis using Some by (simp add: checked_def request_def)
qed

lemma atRateLimit_unrecorded: "rateLimits d url = None \<Longrightarrow> \<not> atRateLimit url d"
  by (simp add: atRateLimit_def)

lemma awaitRateLimit_free: "\<not> atRateLimit url d \<Longrightarrow> awaitRateLimit url d = d"
  by (simp add: awaitRateLimit.simps)

subsection \<open>Claim C6\<close>

text \<open>
  C6 (as amended).  For every endpoint URL with a recorded rate limit and every current
  time, \<open>atRateLimit\<close> reports the endpoint exhausted exactly when the remaining calls
  are 0 and the time is not past the reset time (\<open>now \<le> reset\<close>); it reports it
  available as soon as \<open>now > reset\<close>, from the record and the clock alone, with no
  reset call.
\<close>

theorem atRateLimit_recorded:
  assumes "rateLimits d url = Some rl"
  shows "atRateLimit url d = (remaining rl = 0 \<and> clock d \<le> real_of_int (reset rl))"
  using assms by (auto simp: atRateLimit_def)

theorem atRateLimit_recorded_witness:
  "rateLimits ((new_client 101 (\<lambda>_. None))\<lparr>rateLimits := [''u'' \<mapsto> \<lparr>remaining = 0, reset = 100\<rparr>]\<rparr>) ''u''
     = Some \<lparr>remaining = 0, reset = 100\<rparr> \<and>
   \<not> atRateLimit ''u'' ((new_client 101 (\<lambda>_. None))\<lparr>rateLimits := [''u'' \<mapsto> \<lparr>remaining = 0, reset = 100\<rparr>]\<rparr>)"
proof -
  let ?d = "(new_client 101 (\<lambda>_. None))\<lparr>rateLimits := [''u'' \<mapsto> \<lparr>remaining = 0, reset = 100\<rparr>]\<rparr>"
  have h: "rateLimits ?d ''u'' = Some \<lparr>remaining = 0, reset = 100\<rparr>" by (simp add: new_client_def)
  show ?thesis using h atRateLimit_recorded [OF h] by (simp add: new_client_def)
qed

text \<open>
  At the reset time itself (\<open>now = reset\<close>) the endpoint is still reported exhausted,
  where the claim has it available.
\<close>

theorem atRateLimit_counterexample:
  "rateLimits
     ((new_client 100 (\<lambda>_. None))\<lparr>rateLimits := [''u'' \<mapsto> \<lparr>remaining = 0, reset = 100\<rparr>]\<rparr>) ''u''
     = Some \<lparr>remaining = 0, reset = 100\<rparr> \<and>
   clock ((new_client 100 (\<lambda>_. None))\<lparr>rateLimits := [''u'' \<mapsto> \<lparr>remaining = 0, reset = 100\<rparr>]\<rparr>)
     = 100 \<and>
   atRateLimit ''u''
     ((new_client 100 (\<lambda>_. None))\<lparr>rateLimits := [''u'' \<mapsto> \<lparr>remaining = 0, reset = 100\<rparr>]\<rparr>)"
  by (simp add: atRateLimit_def new_client_def)

subsection \<open>Claim C10\<close>

text \<open>
  C10.  For every URL with no recorded rate limit, \<open>atRateLimit\<close> is false.  A new
  client has no record, a response records only under its own URL and only when it
  carries the header, so as long as no response for the URL carried it the URL has no
  record, whatever the time; and then the check before a message defers nothing and
  the wait before a channel creation does not wait.
\<close>

theorem unrecorded_url_available:
  "(rateLimits d url = None \<longrightarrow> \<not> atRateLimit url d) \<and>
   ((\<forall>r\<in>set rs. r_url r = url \<longrightarrow> r_remaining r = None) \<longrightarrow>
      \<not> atRateLimit url ((processed rs (new_client t env))\<lparr>clock := t'\<rparr>)) \<and>
   (rateLimits d url = None \<and>
    (\<forall>r. replies d (served d) = Some r \<longrightarrow> r_url r = url \<longrightarrow> r_remaining r = None) \<longrightarrow>
      rateLimits (snd (checked c d)) url = None) \<and>
   (rateLimits (discordClient u) (makeURL CHANNEL_MESSAGES channel) = None \<longrightarrow>
      checkMessageRateLimit channel u = (False, u)) \<and>
   (rateLimits d url = None \<longrightarrow> awaitRateLimit url d = d)"
proof -
  have "rateLimits (new_client t env) url = None" by (simp add: new_client_def)
  then have b: "(\<forall>r\<in>set rs. r_url r = url \<longrightarrow> r_remaining r = None) \<longrightarrow>
      \<not> atRateLimit url ((processed rs (new_client t env))\<lparr>clock := t'\<rparr>)"
    using processed_other_url [of "new_client t env" url rs]
    by (auto intro!: atRateLimit_unrecorded)
  have a: "rateLimits d url = None \<longrightarrow> \<not> atRateLimit url d"
    by (simp add: atRateLimit_unrecorded)
  have c: "rateLimits d url = None \<and>
    (\<forall>r. replies d (served d) = Some r \<longrightarrow> r_url r = url \<longrightarrow> r_remaining r = None) \<longrightarrow>
      rateLimits (snd (checked c d)) url = None"
    using checked_other_url [of d url c] by simp
  have d: "rateLimits (discordClient u) (makeURL CHANNEL_MESSAGES channel) = None \<longrightarrow>
      checkMessageRateLimit channel u = (False, u)"
    by (simp add: checkMessageRateLimit_def atRateLimit_unrecorded)
  have e: "rateLimits d url = None \<longrightarrow> awaitRateLimit url d = d"
    by (simp add: atRateLimit_unrecorded awaitRateLimit_free)
  show ?thesis using a b c d e by (intro conjI)
qed


theorem unrecorded_url_available_witness:
  "rateLimits (new_client 0 (\<lambda>_. None)) ''u'' = None \<and>
   r_url \<lparr>r_url = ''v'', r_remaining = Some 0, r_reset = Some 100, r_ok = True,
                  r_json = Nothing, r_elapsed = 0\<rparr> \<noteq> ''u'' \<and>
   rateLimits (processed [\<lparr>r_url = ''v'', r_remaining = Some 0, r_reset = Some 100, r_ok = True,
                  r_json = Nothing, r_elapsed = 0\<rparr>] (new_client 0 (\<lambda>_. None))) ''v''
     = Some \<lparr>remaining = 0, reset = 100\<rparr> \<and>
   \<not> atRateLimit ''u'' (new_client 0 (\<lambda>_. None)) \<and>
   \<not> atRateLimit ''u''
       ((processed [\<lparr>r_url = ''v'', r_remaining = Some 0, r_reset = Some 100, r_ok = True,
                  r_json = Nothing, r_elapsed = 0\<rparr>] (new_client 0 (\<lambda>_. None)))\<lparr>clock := 5\<rparr>) \<and>
   rateLimits (snd (checked (GetGuildChannels ''g'') (new_client 0 (\<lambda>_. None)))) ''u'' = None \<and>
   checkMessageRateLimit (Some ''7'')
       (new_updater (new_client 0 (\<lambda>_. None)) (new_twitter (\<lambda>_. Raises)) ''g'')
     = (False, new_updater (new_client 0 (\<lambda>_. None)) (new_twitter (\<lambda>_. Raises)) ''g'') \<and>
   awaitRateLimit ''u'' (new_client 0 (\<lambda>_. None)) = new_client 0 (\<lambda>_. None)"
proof -
  let ?d = "new_client 0 (\<lambda>_. None)"
  let ?r = "\<lparr>r_url = ''v'', r_remaining = Some 0, r_reset = Some 100, r_ok = True,
                  r_json = Nothing, r_elapsed = 0\<rparr>"
  let ?u = "new_updater ?d (new_twitter (\<lambda>_. Raises)) ''g''"
  have h1: "rateLimits ?d ''u'' = None" by (simp add: new_client_def)
  have h2: "\<forall>r\<in>set [?r]. r_url r = ''u'' \<longrightarrow> r_remaining r = None" by simp
  have h3: "\<forall>r. replies ?d (served ?d) = Some r \<longrightarrow> r_url r = ''u'' \<longrightarrow> r_remaining r = None"
    by (simp add: new_client_def)
  have h4: "rateLimits (discordClient ?u) (makeURL CHANNEL_MESSAGES (Some ''7'')) = None"
    by (simp add: new_updater_def new_client_def)
  have h5: "rateLimits (processed [?r] ?d) ''v'' = Some \<lparr>remaining = 0, reset = 100\<rparr>"
    by (simp add: processed_def checkResponse_def new_client_def)
  note t = unrecorded_url_available [where d = ?d and url = "''u''" and rs = "[?r]" and t = 0
      and env = "\<lambda>_. None" and t' = 5 and c = "GetGuildChannels ''g''" and u = ?u
      and channel = "Some ''7''"]
  have h6: "r_url ?r \<noteq> ''u''" by simp
  show ?thesis using t h1 h2 h3 h4 h5 h6 by blast
qed


section \<open>Properties of the drain pass\<close>

lemma checked_log:
  "checked c d = (res, d') \<Longrightarrow>
     (\<exists>b. calls d' = calls d @ [(c, b)] \<and> ((\<exists>v. res = Inr v) \<longrightarrow> b))"
  by (auto simp: checked_def request_def checkResponse_def split: option.splits if_splits)

lemma checkMessageRateLimit_True:
  "checkMessageRateLimit ch u = (True, u1) \<Longrightarrow>
     u1 = u\<lparr>scheduler := scheduler u @ [Enter 10 0 SendMessages]\<rparr> \<and>
     atRateLimit (makeURL CHANNEL_MESSAGES ch) (discordClient u)"
  by (auto simp: checkMessageRateLimit_def split: if_splits)

lemma checkMessageRateLimit_False:
  "checkMessageRateLimit ch u = (False, u1) \<Longrightarrow>
     u1 = u \<and> \<not> atRateLimit (makeURL CHANNEL_MESSAGES ch) (discordClient u)"
  by (auto simp: checkMessageRateLimit_def split: if_splits)

lemma sent_Cons: "sent ch (m # ms) = (CreateChannelMessage ch m, True) # sent ch ms"
  by (simp add: sent_def)

lemma sent_Nil: "sent ch [] = []"
  by (simp add: sent_def)

lemma sendCopied_Cons_cases:
  assumes "sendCopied ch (m # ms) queue u = (out, q, u')"
  obtains
    (limited) "atRateLimit (makeURL CHANNEL_MESSAGES ch) (discordClient u)"
      "out = Deferred" "q = queue"
      "u' = u\<lparr>scheduler := scheduler u @ [Enter 10 0 SendMessages]\<rparr>"
  | (raised) e d where "\<not> atRateLimit (makeURL CHANNEL_MESSAGES ch) (discordClient u)"
      "createChannelMessage ch m (discordClient u) = (Inl e, d)"
      "out = Failed e" "q = queue" "u' = u\<lparr>discordClient := d\<rparr>"
  | (empty) v d where "\<not> atRateLimit (makeURL CHANNEL_MESSAGES ch) (discordClient u)"
      "createChannelMessage ch m (discordClient u) = (Inr v, d)"
      "queue = []" "out = Failed IndexError" "q = queue" "u' = u\<lparr>discordClient := d\<rparr>"
  | (next_message) v d x queue' where
      "\<not> atRateLimit (makeURL CHANNEL_MESSAGES ch) (discordClient u)"
      "createChannelMessage ch m (discordClient u) = (Inr v, d)"
      "queue = x # queue'"
      "sendCopied ch ms queue' (u\<lparr>discordClient := d\<rparr>) = (out, q, u')"
proof (cases "atRateLimit (makeURL CHANNEL_MESSAGES ch) (discordClient u)")
  case True
  with assms limited show ?thesis by (simp add: checkMessageRateLimit_def)
next
  case False
  obtain res d where cm: "createChannelMessage ch m (discordClient u) = (res, d)"
    by (cases "createChannelMessage ch m (discordClient u)")
  show ?thesis
  proof (cases res)
    case (Inl e)
    with assms False cm raised show ?thesis by (simp add: checkMessageRateLimit_def)
  next
    case (Inr v)
    show ?thesis
    proof (cases queue)
      case Nil
      with assms False cm Inr empty show ?thesis by (simp add: checkMessageRateLimit_def)
    next
      case (Cons x queue')
      with assms False cm Inr next_message show ?thesis
        by (simp add: checkMessageRateLimit_def)
    qed
  qed
qed

text \<open>What the inner loop leaves alone.\<close>

lemma sendCopied_frame:
  "sendCopied ch copied queue u = (out, q, u') \<Longrightarrow>
     twitterLists u' = twitterLists u \<and> sendingMessages u' = sendingMessages u \<and>
     categoryName u' = categoryName u \<and> guildID u' = guildID u \<and>
     twitterClient u' = twitterClient u"
proof (induction copied arbitrary: queue u)
  case Nil
  then show ?case by simp
next
  case (Cons m ms)
  from Cons.prems show ?case
  proof (cases rule: sendCopied_Cons_cases)
    case (next_message v d x queue')
    from Cons.IH [OF next_message(4)] show ?thesis by simp
  qed simp_all
qed

text \<open>
  The inner loop on a queue that starts with the copy: it pops a prefix of the copy,
  logs the delivery of exactly that prefix, and says how it ended.
\<close>

lemma createChannelMessage_log:
  "createChannelMessage ch m d = (res, d') \<Longrightarrow>
     (\<exists>b. calls d' = calls d @ [(CreateChannelMessage ch m, b)] \<and> ((\<exists>v. res = Inr v) \<longrightarrow> b))"
  unfolding createChannelMessage_def by (rule checked_log)

lemma createChannelMessage_not_IndexError:
  "createChannelMessage ch m d = (Inl e, d') \<Longrightarrow> e \<noteq> IndexError"
  by (auto simp: createChannelMessage_def checked_def request_def checkResponse_def
      split: option.splits if_splits)

lemma sendCopied_spec:
  "sendCopied ch copied (copied @ extra) u = (out, q, u') \<Longrightarrow>
     \<exists>k\<le>length copied. q = drop k copied @ extra \<and> ended out ch copied k u u'"
proof (induction copied arbitrary: u)
  case Nil
  then show ?case by (auto simp: ended_def sent_Nil)
next
  case (Cons m ms)
  from Cons.prems show ?case
  proof (cases rule: sendCopied_Cons_cases)
    case limited
    then have "q = drop 0 (m # ms) @ extra \<and> ended out ch (m # ms) 0 u u'"
      by (simp add: ended_def sent_Nil)
    then show ?thesis by blast
  next
    case (raised e d)
    from createChannelMessage_log [OF raised(2)] obtain b where
      "calls d = calls (discordClient u) @ [(CreateChannelMessage ch m, b)]" by blast
    with raised createChannelMessage_not_IndexError [OF raised(2)]
    have "q = drop 0 (m # ms) @ extra \<and> ended out ch (m # ms) 0 u u'"
      by (simp add: ended_def sent_Nil)
    then show ?thesis by blast
  next
    case (empty v d)
    then show ?thesis by simp
  next
    case (next_message v d x queue')
    then have q': "queue' = ms @ extra" by simp
    from createChannelMessage_log [OF next_message(2)]
    have log: "calls d = calls (discordClient u) @ [(CreateChannelMessage ch m, True)]" by auto
    from Cons.IH [OF next_message(4) [unfolded q']] obtain k where
      k: "k \<le> length ms" "q = drop k ms @ extra"
      "ended out ch ms k (u\<lparr>discordClient := d\<rparr>) u'" by blast
    have "ended out ch (m # ms) (Suc k) u u'"
      using k(3) log by (cases out) (auto simp: ended_def sent_Cons)
    with k(1,2) have "Suc k \<le> length (m # ms) \<and> q = drop (Suc k) (m # ms) @ extra \<and>
        ended out ch (m # ms) (Suc k) u u'" by simp
    then show ?thesis by blast
  qed
qed


lemma for_each_list_Cons_cases:
  assumes "for_each_list body ((n, e) # rest) s = (out, tls', s')"
  obtains
    (stop) e1 where "body n e s = (out, e1, s')" "out \<noteq> Done" "tls' = (n, e1) # rest"
  | (go) e1 s1 rest' where "body n e s = (Done, e1, s1)"
      "for_each_list body rest s1 = (out, rest', s')" "tls' = (n, e1) # rest'"
proof -
  obtain o1 e1 s1 where b: "body n e s = (o1, e1, s1)" by (cases "body n e s")
  show ?thesis
  proof (cases "o1 = Done")
    case True
    obtain o2 rest' s2 where r: "for_each_list body rest s1 = (o2, rest', s2)"
      by (cases "for_each_list body rest s1")
    with assms b True go show ?thesis by simp
  next
    case False
    with assms b stop show ?thesis by (cases o1) simp_all
  qed
qed

lemma sendList_spec:
  assumes "sendList n e u = (out, e1, u1)"
  shows "\<exists>k\<le>length (messages e). e1 = e\<lparr>messages := drop k (messages e)\<rparr> \<and>
           ended out (channelID e) (messages e) k u u1"
proof -
  obtain q where sc: "sendCopied (channelID e) (messages e) (messages e @ []) u = (out, q, u1)"
    and e1: "e1 = e\<lparr>messages := q\<rparr>"
    using assms by (auto simp: sendList_def split: prod.splits)
  from sendCopied_spec [OF sc] e1 show ?thesis by auto
qed

lemma sendList_frame:
  assumes "sendList n e u = (out, e1, u1)"
  shows "twitterLists u1 = twitterLists u \<and> sendingMessages u1 = sendingMessages u \<and>
     categoryName u1 = categoryName u \<and> guildID u1 = guildID u \<and>
     twitterClient u1 = twitterClient u"
  using assms sendCopied_frame by (auto simp: sendList_def split: prod.splits)

lemma popped_drop:
  "k \<le> length (messages e) \<Longrightarrow> popped e (e\<lparr>messages := drop k (messages e)\<rparr>) = take k (messages e)"
  by (simp add: popped_def)

lemma popped_same: "popped e e = []"
  by (simp add: popped_def)

lemma drained_to_drop:
  "k \<le> length (messages e) \<Longrightarrow> drained_to (n, e) (n, e\<lparr>messages := drop k (messages e)\<rparr>)"
  by (simp add: drained_to_def popped_def)

lemma drained_to_same: "list_all2 drained_to tls tls"
  by (simp add: list_all2_refl drained_to_def popped_def)

lemma pass_log_same: "pass_log tls tls = []"
  by (induction tls) (auto simp: pass_log_def popped_same sent_Nil)

lemma pass_log_Cons:
  "pass_log ((n, e) # old) ((n', e') # new) = sent (channelID e) (popped e e') @ pass_log old new"
  by (simp add: pass_log_def)

lemma send_all_frame:
  "for_each_list sendList tls u = (out, tls', u') \<Longrightarrow>
     twitterLists u' = twitterLists u \<and> sendingMessages u' = sendingMessages u \<and>
     categoryName u' = categoryName u \<and> guildID u' = guildID u \<and>
     twitterClient u' = twitterClient u"
proof (induction tls arbitrary: u tls')
  case Nil
  then show ?case by simp
next
  case (Cons a tls)
  obtain n e where a: "a = (n, e)" by (cases a)
  from Cons.prems [unfolded a] show ?case
  proof (cases rule: for_each_list_Cons_cases)
    case (stop e1)
    then show ?thesis using sendList_frame by blast
  next
    case (go e1 s1 rest')
    from Cons.IH [OF go(2)] sendList_frame [OF go(1)] show ?thesis by simp
  qed
qed

text \<open>Every list keeps its name, id and channel, and its queue loses a front part only.\<close>

lemma send_all_drained:
  "for_each_list sendList tls u = (out, tls', u') \<Longrightarrow> list_all2 drained_to tls tls'"
proof (induction tls arbitrary: u tls')
  case Nil
  then show ?case by simp
next
  case (Cons a tls)
  obtain n e where a: "a = (n, e)" by (cases a)
  from Cons.prems [unfolded a] show ?case
  proof (cases rule: for_each_list_Cons_cases)
    case (stop e1)
    from sendList_spec [OF stop(1)] have "drained_to (n, e) (n, e1)"
      using drained_to_drop by blast
    then show ?thesis using stop(3) a drained_to_same by simp
  next
    case (go e1 s1 rest')
    from sendList_spec [OF go(1)] have "drained_to (n, e) (n, e1)"
      using drained_to_drop by blast
    then show ?thesis using go(3) a Cons.IH [OF go(2)] by simp
  qed
qed

text \<open>A pass that ends without an exception has logged exactly the deliveries of what it popped.\<close>

lemma send_all_log:
  assumes "for_each_list sendList tls u = (out, tls', u')" "out = Done \<or> out = Deferred"
  shows "calls (discordClient u') = calls (discordClient u) @ pass_log tls tls'"
  using assms
proof (induction tls arbitrary: u tls')
  case Nil
  then show ?case by (simp add: pass_log_def)
next
  case (Cons a tls)
  obtain n e where a: "a = (n, e)" by (cases a)
  from Cons.prems(1) [unfolded a] show ?case
  proof (cases rule: for_each_list_Cons_cases)
    case (stop e1)
    with Cons.prems(2) have d: "out = Deferred" by simp
    from sendList_spec [OF stop(1)] obtain k where
      k: "k \<le> length (messages e)" "e1 = e\<lparr>messages := drop k (messages e)\<rparr>"
      "ended out (channelID e) (messages e) k u u'" by blast
    then show ?thesis
      using d stop(3) a by (simp add: ended_def pass_log_Cons popped_drop pass_log_same)
  next
    case (go e1 s1 rest')
    from sendList_spec [OF go(1)] obtain k where
      k: "k \<le> length (messages e)" "e1 = e\<lparr>messages := drop k (messages e)\<rparr>"
      "ended Done (channelID e) (messages e) k u s1" by blast
    then have "calls (discordClient s1) = calls (discordClient u) @ sent (channelID e) (popped e e1)"
      by (simp add: ended_def popped_def)
    with Cons.IH [OF go(2) Cons.prems(2)] show ?thesis
      using go(3) a by (simp add: pass_log_Cons)
  qed
qed


text \<open>A pass that runs to its end has emptied every queue and entered no retry.\<close>

lemma send_all_Done:
  assumes "for_each_list sendList tls u = (Done, tls', u')"
  shows "tls' = map (\<lambda>(n, e). (n, e\<lparr>messages := []\<rparr>)) tls \<and> scheduler u' = scheduler u"
  using assms
proof (induction tls arbitrary: u tls')
  case Nil
  then show ?case by simp
next
  case (Cons a tls)
  obtain n e where a: "a = (n, e)" by (cases a)
  from Cons.prems [unfolded a] show ?case
  proof (cases rule: for_each_list_Cons_cases)
    case (stop e1)
    then show ?thesis by simp
  next
    case (go e1 s1 rest')
    from sendList_spec [OF go(1)] have "e1 = e\<lparr>messages := []\<rparr>" "scheduler s1 = scheduler u"
      by (auto simp: ended_def)
    with Cons.IH [OF go(2)] go(3) a show ?thesis by simp
  qed
qed

text \<open>
  A pass that stops at a rate limit: the lists before the limited one are emptied, the
  limited one keeps its queue from some position on, the lists after it are not
  looked at, and one retry is entered.
\<close>

lemma send_all_Deferred:
  assumes "for_each_list sendList tls u = (Deferred, tls', u')"
  shows "\<exists>pre n e post k.
           tls = pre @ (n, e) # post \<and>
           tls' = map (\<lambda>(n, e). (n, e\<lparr>messages := []\<rparr>)) pre @
                    (n, e\<lparr>messages := drop k (messages e)\<rparr>) # post \<and>
           k < length (messages e) \<and>
           atRateLimit (makeURL CHANNEL_MESSAGES (channelID e)) (discordClient u') \<and>
           scheduler u' = scheduler u @ [Enter 10 0 SendMessages]"
  using assms
proof (induction tls arbitrary: u tls')
  case Nil
  then show ?case by simp
next
  case (Cons a tls)
  obtain n e where a: "a = (n, e)" by (cases a)
  from Cons.prems [unfolded a] show ?case
  proof (cases rule: for_each_list_Cons_cases)
    case (stop e1)
    from sendList_spec [OF stop(1)] obtain k where
      k: "e1 = e\<lparr>messages := drop k (messages e)\<rparr>" "k < length (messages e)"
        "atRateLimit (makeURL CHANNEL_MESSAGES (channelID e)) (discordClient u')"
        "scheduler u' = scheduler u @ [Enter 10 0 SendMessages]"
      by (auto simp: ended_def)
    have "a # tls = [] @ (n, e) # tls \<and>
          tls' = map (\<lambda>(n, e). (n, e\<lparr>messages := []\<rparr>)) [] @
                    (n, e\<lparr>messages := drop k (messages e)\<rparr>) # tls"
      using a stop(3) k(1) by simp
    with k(2,3,4) show ?thesis by blast
  next
    case (go e1 s1 rest')
    from sendList_spec [OF go(1)] have e1: "e1 = e\<lparr>messages := []\<rparr>" "scheduler s1 = scheduler u"
      by (auto simp: ended_def)
    from Cons.IH [OF go(2)] obtain pre n2 e2 post k where
      h: "tls = pre @ (n2, e2) # post"
         "rest' = map (\<lambda>(n, e). (n, e\<lparr>messages := []\<rparr>)) pre @
                    (n2, e2\<lparr>messages := drop k (messages e2)\<rparr>) # post"
         "k < length (messages e2)"
         "atRateLimit (makeURL CHANNEL_MESSAGES (channelID e2)) (discordClient u')"
         "scheduler u' = scheduler s1 @ [Enter 10 0 SendMessages]" by blast
    have "a # tls = ((n, e) # pre) @ (n2, e2) # post \<and>
          tls' = map (\<lambda>(n, e). (n, e\<lparr>messages := []\<rparr>)) ((n, e) # pre) @
                    (n2, e2\<lparr>messages := drop k (messages e2)\<rparr>) # post"
      using a go(3) e1(1) h(1,2) by simp
    with h(3,4,5) e1(2) show ?thesis by metis
  qed
qed

lemma send_all_Failed:
  assumes "for_each_list sendList tls u = (Failed err, tls', u')"
  shows "scheduler u' = scheduler u \<and> err \<noteq> IndexError"
  using assms
proof (induction tls arbitrary: u tls')
  case Nil
  then show ?case by simp
next
  case (Cons a tls)
  obtain n e where a: "a = (n, e)" by (cases a)
  from Cons.prems [unfolded a] show ?case
  proof (cases rule: for_each_list_Cons_cases)
    case (stop e1)
    from sendList_spec [OF stop(1)] show ?thesis by (auto simp: ended_def)
  next
    case (go e1 s1 rest')
    from sendList_spec [OF go(1)] have "scheduler s1 = scheduler u" by (auto simp: ended_def)
    with Cons.IH [OF go(2)] show ?thesis by simp
  qed
qed

lemma sendMessages_cases:
  assumes "sendMessages u = (out, u')"
  obtains tls' u1 where
    "for_each_list sendList (twitterLists u) (u\<lparr>sendingMessages := True\<rparr>) = (out, tls', u1)"
    "u' = u1\<lparr>twitterLists := tls', sendingMessages := (out \<noteq> Done)\<rparr>"
proof -
  obtain o1 tls' u1 where
    f: "for_each_list sendList (twitterLists u) (u\<lparr>sendingMessages := True\<rparr>) = (o1, tls', u1)"
    by (cases "for_each_list sendList (twitterLists u) (u\<lparr>sendingMessages := True\<rparr>)")
  from send_all_frame [OF f] have t: "sendingMessages u1 = True" by simp
  have "u1\<lparr>twitterLists := tls'\<rparr> = u1\<lparr>twitterLists := tls', sendingMessages := True\<rparr>"
    using t by simp
  with assms f have "out = o1 \<and> u' = u1\<lparr>twitterLists := tls', sendingMessages := (out \<noteq> Done)\<rparr>"
    by (cases o1) (auto simp: sendMessages_def Let_def)
  with f that show ?thesis by blast
qed


lemma sendMessages_drained:
  assumes "sendMessages u = (out, u1)"
  shows "list_all2 drained_to (twitterLists u) (twitterLists u1)"
  using assms
proof (cases rule: sendMessages_cases)
  case (1 tls' s1)
  from send_all_drained [OF 1(1)] 1(2) show ?thesis by simp
qed

lemma sendMessages_log:
  assumes "sendMessages u = (out, u1)" "out = Done \<or> out = Deferred"
  shows "calls (discordClient u1) =
           calls (discordClient u) @ pass_log (twitterLists u) (twitterLists u1)"
  using assms(1)
proof (cases rule: sendMessages_cases)
  case (1 tls' s1)
  from send_all_log [OF 1(1) assms(2)] 1(2) show ?thesis by simp
qed

lemma drained_to_position:
  assumes "drained_to old new"
  shows "messages (snd new) = drop (length (popped (snd old) (snd new))) (messages (snd old))"
proof -
  from assms have "messages (snd old) = popped (snd old) (snd new) @ messages (snd new)"
    by (simp add: drained_to_def)
  then have "drop (length (popped (snd old) (snd new))) (messages (snd old)) =
             drop (length (popped (snd old) (snd new)))
               (popped (snd old) (snd new) @ messages (snd new))"
    by simp
  then show ?thesis by simp
qed

section \<open>Properties of the loops over the lists\<close>

lemma for_each_list_rel:
  assumes body: "\<And>n e s out e' s'. body n e s = (out, e', s') \<Longrightarrow> R (n, e) (n, e')"
    and refl: "\<And>x. R x x"
  shows "for_each_list body tls s = (out, tls', s') \<Longrightarrow> list_all2 R tls tls'"
proof (induction tls arbitrary: s tls')
  case Nil
  then show ?case by simp
next
  case (Cons a tls)
  obtain n e where a: "a = (n, e)" by (cases a)
  from Cons.prems [unfolded a] show ?case
  proof (cases rule: for_each_list_Cons_cases)
    case (stop e1)
    with body [OF stop(1)] a show ?thesis by (simp add: list_all2_refl refl)
  next
    case (go e1 s1 rest')
    with body [OF go(1)] a Cons.IH [OF go(2)] show ?thesis by simp
  qed
qed

lemma for_each_list_state:
  assumes body: "\<And>n e s out e' s'. body n e s = (out, e', s') \<Longrightarrow> Q s s'"
    and refl: "\<And>s. Q s s"
    and trans: "\<And>a b c. Q a b \<Longrightarrow> Q b c \<Longrightarrow> Q a c"
  shows "for_each_list body tls s = (out, tls', s') \<Longrightarrow> Q s s'"
proof (induction tls arbitrary: s tls')
  case Nil
  then show ?case by (simp add: refl)
next
  case (Cons a tls)
  obtain n e where a: "a = (n, e)" by (cases a)
  from Cons.prems [unfolded a] show ?case
  proof (cases rule: for_each_list_Cons_cases)
    case (stop e1)
    with body [OF stop(1)] show ?thesis by simp
  next
    case (go e1 s1 rest')
    from body [OF go(1)] Cons.IH [OF go(2)] show ?thesis by (rule trans)
  qed
qed

subsection \<open>The relation \<open>kept\<close>\<close>

lemma bound_kept_refl: "bound_kept x x"
  by (simp add: bound_kept_def)

lemma bound_kept_trans: "bound_kept a b \<Longrightarrow> bound_kept b c \<Longrightarrow> bound_kept a c"
  by (auto simp: bound_kept_def)

lemma kept_same_length: "list_all2 bound_kept old new \<Longrightarrow> kept old new"
  by (simp add: kept_def list_all2_lengthD)

lemma kept_append: "kept old (old @ added)"
  by (simp add: kept_def list_all2_refl bound_kept_refl)

lemma kept_refl: "kept old old"
  by (simp add: kept_def list_all2_refl bound_kept_refl)

lemma kept_trans:
  assumes "kept a b" "kept b c"
  shows "kept a c"
proof -
  from assms have len: "length a \<le> length b" "length b \<le> length c" by (simp_all add: kept_def)
  from assms(2) have "list_all2 bound_kept b (take (length b) c)" by (simp add: kept_def)
  then have "list_all2 bound_kept (take (length a) b) (take (length a) (take (length b) c))"
    by (rule list_all2_takeI)
  moreover have "take (length a) (take (length b) c) = take (length a) c"
    using len by (simp add: min_def)
  ultimately have "list_all2 bound_kept (take (length a) b) (take (length a) c)" by simp
  with assms(1) have "list_all2 bound_kept a (take (length a) c)"
    unfolding kept_def using bound_kept_trans list_all2_trans by blast
  with len show ?thesis by (simp add: kept_def)
qed

lemma drained_to_bound_kept: "drained_to x y \<Longrightarrow> bound_kept x y"
  by (simp add: drained_to_def bound_kept_def)

subsection \<open>\<open>updateTwitterLists\<close>\<close>

lemma addLists_appends: "\<exists>added. addLists ls tls = tls @ added"
proof (induction ls arbitrary: tls)
  case Nil
  then show ?case by simp
next
  case (Cons a ls)
  obtain name i where a: "a = (name, i)" by (cases a)
  show ?case
  proof (cases "name \<notin> set (map fst tls)")
    case True
    from Cons.IH [of "tls @ [(name, \<lparr>lid = i, channelID = None, messages = []\<rparr>)]"]
    obtain added where
      "addLists ls (tls @ [(name, \<lparr>lid = i, channelID = None, messages = []\<rparr>)]) =
         (tls @ [(name, \<lparr>lid = i, channelID = None, messages = []\<rparr>)]) @ added" by blast
    with True a show ?thesis by simp
  next
    case False
    with Cons.IH [of tls] a show ?thesis by simp
  qed
qed

lemma updateTwitterLists_appends:
  assumes "updateTwitterLists u = (out, u')"
  shows "\<exists>added. twitterLists u' = twitterLists u @ added"
proof -
  obtain rep t where r: "tw_request GetLists (twitterClient u) = (rep, t)"
    by (cases "tw_request GetLists (twitterClient u)")
  show ?thesis
  proof (cases rep)
    case (Lists ls)
    with assms r have "twitterLists u' = addLists ls (twitterLists u)"
      by (auto simp: updateTwitterLists_def)
    with addLists_appends show ?thesis by simp
  qed (use assms r in \<open>auto simp: updateTwitterLists_def\<close>)
qed



lemma for_each_list_Done:
  assumes body: "\<And>n e s e' s'. body n e s = (Done, e', s') \<Longrightarrow> P (n, e')"
  shows "for_each_list body tls s = (Done, tls', s') \<Longrightarrow> list_all P tls'"
proof (induction tls arbitrary: s tls')
  case Nil
  then show ?case by simp
next
  case (Cons a tls)
  obtain n e where a: "a = (n, e)" by (cases a)
  from Cons.prems [unfolded a] show ?case
  proof (cases rule: for_each_list_Cons_cases)
    case (stop e1)
    then show ?thesis by simp
  next
    case (go e1 s1 rest')
    with body [OF go(1)] Cons.IH [OF go(2)] show ?thesis by simp
  qed
qed

lemma for_each_list_skip:
  assumes "\<And>n e. (n, e) \<in> set tls \<Longrightarrow> body n e s = (Done, e, s)"
  shows "for_each_list body tls s = (Done, tls, s)"
  using assms
proof (induction tls)
  case Nil
  then show ?case by simp
next
  case (Cons a tls)
  obtain n e where a: "a = (n, e)" by (cases a)
  have "body n e s = (Done, e, s)" using Cons.prems a by simp
  moreover have "for_each_list body tls s = (Done, tls, s)" using Cons by simp
  ultimately show ?case using a by simp
qed

subsection \<open>\<open>channelMaintenance\<close>\<close>

lemma framed_refl: "framed u u"
  by (simp add: framed_def)

lemma framed_trans: "framed a b \<Longrightarrow> framed b c \<Longrightarrow> framed a c"
  by (simp add: framed_def)

lemma framed_client: "framed u (u\<lparr>discordClient := d\<rparr>)"
  by (simp add: framed_def)

lemma bindList_bound:
  assumes "channelID e \<noteq> None"
  shows "bindList cat n e s = (Done, e, s)"
  using assms by (cases s) (auto simp: bindList_def)

lemma bindList_spec:
  assumes "bindList cat n e (cur, u) = (out, e', cur', u')"
  shows "bound_kept (n, e) (n, e') \<and> messages e' = messages e \<and> framed u u' \<and>
         twitterLists u' = twitterLists u \<and> scheduler u' = scheduler u \<and>
         (out = Done \<longrightarrow> channelID e' \<noteq> None)"
proof (cases "channelID e")
  case (Some c)
  with assms show ?thesis by (auto simp: bindList_def bound_kept_def framed_def)
next
  case None
  show ?thesis
  proof (cases "find (\<lambda>channel. parent_id channel = Some (cid cat)
                                   \<and> cname channel = lower n) cur")
    case (Some c)
    with assms None show ?thesis by (auto simp: bindList_def bound_kept_def framed_def)
  next
    case nf: None
    let ?d = "awaitRateLimit (makeURL GUILD_CHANNELS (Some (guildID u))) (discordClient u)"
    obtain res d' where cg: "createGuildChannel (guildID u) (Some n) GUILD_TEXT (Some (cid cat)) ?d
        = (res, d')"
      by (cases "createGuildChannel (guildID u) (Some n) GUILD_TEXT (Some (cid cat)) ?d")
    show ?thesis
    proof (cases res)
      case (Inl err)
      with assms None nf cg show ?thesis
        by (auto simp: bindList_def bound_kept_def framed_def Let_def)
    next
      case (Inr b)
      with assms None nf cg show ?thesis
        by (cases b) (auto simp: bindList_def bound_kept_def framed_def Let_def)
    qed
  qed
qed

lemma bind_all_frame:
  assumes "for_each_list (bindList cat) tls (cur, u) = (out, tls', cur', u')"
  shows "framed u u' \<and> twitterLists u' = twitterLists u \<and> scheduler u' = scheduler u"
proof -
  have "bind_inv (cur, u) (cur', u')"
  proof (rule for_each_list_state [where body = "bindList cat" and Q = bind_inv, OF _ _ _ assms])
    fix n e s out e' s'
    assume b: "bindList cat n e s = (out, e', s')"
    obtain c0 u0 c1 u1 where "s = (c0, u0)" "s' = (c1, u1)" by (cases s, cases s')
    with bindList_spec [of cat n e c0 u0 out e' c1 u1] b show "bind_inv s s'"
      by (simp add: bind_inv_def)
  next
    fix s show "bind_inv s s" by (simp add: bind_inv_def framed_refl)
  next
    fix a b c assume "bind_inv a b" "bind_inv b c"
    then show "bind_inv a c" by (auto simp: bind_inv_def intro: framed_trans)
  qed
  then show ?thesis by (simp add: bind_inv_def)
qed

lemma bind_all_kept:
  assumes "for_each_list (bindList cat) tls s = (out, tls', s')"
  shows "list_all2 bound_kept tls tls'"
proof (rule for_each_list_rel [where body = "bindList cat", OF _ _ assms])
  fix n e s out e' s'
  assume b: "bindList cat n e s = (out, e', s')"
  obtain c0 u0 c1 u1 where "s = (c0, u0)" "s' = (c1, u1)" by (cases s, cases s')
  with bindList_spec [of cat n e c0 u0 out e' c1 u1] b show "bound_kept (n, e) (n, e')" by simp
next
  fix x show "bound_kept x x" by (rule bound_kept_refl)
qed

lemma bind_all_Done:
  assumes "for_each_list (bindList cat) tls s = (Done, tls', s')"
  shows "list_all (\<lambda>x. channelID (snd x) \<noteq> None) tls'"
proof (rule for_each_list_Done [where body = "bindList cat", OF _ assms])
  fix n e s e' s'
  assume b: "bindList cat n e s = (Done, e', s')"
  obtain c0 u0 c1 u1 where "s = (c0, u0)" "s' = (c1, u1)" by (cases s, cases s')
  with bindList_spec [of cat n e c0 u0 Done e' c1 u1] b
  show "channelID (snd (n, e')) \<noteq> None" by simp
qed

lemma bind_all_skip:
  assumes "list_all (\<lambda>x. channelID (snd x) \<noteq> None) tls"
  shows "for_each_list (bindList cat) tls s = (Done, tls, s)"
proof (rule for_each_list_skip)
  fix n e assume "(n, e) \<in> set tls"
  with assms have "channelID e \<noteq> None" by (auto simp: list_all_iff)
  then show "bindList cat n e s = (Done, e, s)" by (rule bindList_bound)
qed


lemma checked_frame:
  "checked c d = (res, d') \<Longrightarrow> replies d' = replies d"
  by (auto simp: checked_def request_def checkResponse_def split: option.splits if_splits)

lemma ensureCategory_frame:
  assumes "ensureCategory fetched u = (res, u')"
  shows "framed u u' \<and> twitterLists u' = twitterLists u \<and> scheduler u' = scheduler u"
proof (cases "findCategory (categoryName u) fetched")
  case (Some c)
  with assms show ?thesis by (auto simp: ensureCategory_def framed_def)
next
  case None
  obtain r d where cg: "createGuildChannel (guildID u) (categoryName u) GUILD_CATEGORY None
                  (discordClient u) = (r, d)"
    by (cases "createGuildChannel (guildID u) (categoryName u) GUILD_CATEGORY None (discordClient u)")
  show ?thesis
  proof (cases r)
    case (Inl e)
    with assms None cg show ?thesis by (auto simp: ensureCategory_def framed_def)
  next
    case (Inr b)
    with assms None cg show ?thesis by (cases b) (auto simp: ensureCategory_def framed_def)
  qed
qed

lemma ensureCategory_found:
  assumes "findCategory (categoryName u) fetched = Some cat"
  shows "ensureCategory fetched u = (Inr cat, u)"
  using assms by (simp add: ensureCategory_def)

lemma createMissing_spec:
  assumes "createMissing u = (out, cur, u')"
  shows "list_all2 bound_kept (twitterLists u) (twitterLists u') \<and> framed u u' \<and>
         scheduler u' = scheduler u \<and>
         (out = Done \<longrightarrow> list_all (\<lambda>x. channelID (snd x) \<noteq> None) (twitterLists u'))"
proof -
  obtain res d where g: "getGuildChannels (guildID u) (discordClient u) = (res, d)"
    by (cases "getGuildChannels (guildID u) (discordClient u)")
  have same: "list_all2 bound_kept (twitterLists u) (twitterLists u)"
    by (simp add: list_all2_refl bound_kept_refl)
  show ?thesis
  proof (cases res)
    case (Inl e)
    with assms g same show ?thesis by (auto simp: createMissing_def framed_def)
  next
    case (Inr b)
    show ?thesis
    proof (cases b)
      case (Channels fetched)
      let ?u0 = "u\<lparr>discordClient := d\<rparr>"
      obtain r u1 where ec: "ensureCategory fetched ?u0 = (r, u1)"
        by (cases "ensureCategory fetched ?u0")
      from ensureCategory_frame [OF ec]
      have f1: "framed u u1" "twitterLists u1 = twitterLists u" "scheduler u1 = scheduler u"
        by (simp_all add: framed_def)
      show ?thesis
      proof (cases r)
        case (Inl e)
        with assms g Inr Channels ec have "out = Failed e" "u' = u1"
          by (simp_all add: createMissing_def)
        with f1 same show ?thesis by simp
      next
        case cat: (Inr cat)
        let ?cur = "filter (\<lambda>channel. parent_id channel = Some (cid cat)) fetched"
        obtain out1 tls' cur' u2 where
          l: "for_each_list (bindList cat) (twitterLists u1) (?cur, u1) = (out1, tls', cur', u2)"
          by (cases "for_each_list (bindList cat) (twitterLists u1) (?cur, u1)") auto
        with assms g Inr Channels ec cat
        have r: "out = out1" "cur = cur'" "u' = u2\<lparr>twitterLists := tls'\<rparr>"
          by (simp_all add: createMissing_def)
        from bind_all_frame [OF l] have f2: "framed u1 u2" "scheduler u2 = scheduler u1"
          by simp_all
        from bind_all_kept [OF l] f1(2)
        have k: "list_all2 bound_kept (twitterLists u) tls'" by simp
        have "out = Done \<longrightarrow> list_all (\<lambda>x. channelID (snd x) \<noteq> None) tls'"
          using bind_all_Done [of cat "twitterLists u1" "(?cur, u1)" tls' "(cur', u2)"] l r(1)
          by simp
        with k f1 f2 r show ?thesis by (simp add: framed_def)
      qed
    qed (use assms g Inr same in \<open>auto simp: createMissing_def framed_def\<close>)
  qed
qed

lemma createMissing_bound:
  assumes "list_all (\<lambda>x. channelID (snd x) \<noteq> None) (twitterLists u)"
    and "getGuildChannels (guildID u) (discordClient u) = (Inr (Channels fetched), d)"
    and "findCategory (categoryName u) fetched = Some cat"
  shows "createMissing u =
           (Done, filter (\<lambda>channel. parent_id channel = Some (cid cat)) fetched,
            u\<lparr>discordClient := d\<rparr>)"
proof -
  let ?u0 = "u\<lparr>discordClient := d\<rparr>"
  have ec: "ensureCategory fetched ?u0 = (Inr cat, ?u0)"
    using assms(3) by (simp add: ensureCategory_def)
  have "for_each_list (bindList cat) (twitterLists ?u0)
          (filter (\<lambda>channel. parent_id channel = Some (cid cat)) fetched, ?u0) =
        (Done, twitterLists ?u0, filter (\<lambda>channel. parent_id channel = Some (cid cat)) fetched, ?u0)"
    using assms(1) by (intro bind_all_skip) simp
  with assms(2) ec show ?thesis by (simp add: createMissing_def)
qed

lemma modifyGuildChannelPositions_log:
  assumes "modifyGuildChannelPositions g pairs d = (r, d')"
  shows "map fst (calls d') =
           map fst (calls d) @ (if pairs = [] then [] else [ModifyGuildChannelPositions g pairs])"
  using assms
  by (auto simp: modifyGuildChannelPositions_def request_def split: if_splits option.splits)

lemma channelMaintenance_Done:
  assumes "createMissing u = (Done, cur, u1)"
  shows "\<exists>r d. modifyGuildChannelPositions (guildID u1)
                  (positionPairs cur (sort_key cname cur)) (discordClient u1) = (r, d) \<and>
               channelMaintenance u =
                 (case r of None \<Rightarrow> Done | Some e \<Rightarrow> Failed e, u1\<lparr>discordClient := d\<rparr>)"
proof -
  obtain r d where m: "modifyGuildChannelPositions (guildID u1)
                  (positionPairs cur (sort_key cname cur)) (discordClient u1) = (r, d)"
    by (cases "modifyGuildChannelPositions (guildID u1)
                  (positionPairs cur (sort_key cname cur)) (discordClient u1)")
  with assms have "channelMaintenance u =
                 (case r of None \<Rightarrow> Done | Some e \<Rightarrow> Failed e, u1\<lparr>discordClient := d\<rparr>)"
    by (cases r) (simp_all add: channelMaintenance_def Let_def)
  with m show ?thesis by blast
qed

lemma channelMaintenance_stopped:
  assumes "createMissing u = (out, cur, u1)" "out \<noteq> Done"
  shows "channelMaintenance u = (out, u1)"
  using assms by (cases out) (simp_all add: channelMaintenance_def)

lemma channelMaintenance_spec:
  assumes "channelMaintenance u = (out, u')"
  shows "list_all2 bound_kept (twitterLists u) (twitterLists u') \<and> framed u u' \<and>
         scheduler u' = scheduler u \<and>
         (out = Done \<longrightarrow> list_all (\<lambda>x. channelID (snd x) \<noteq> None) (twitterLists u'))"
proof -
  obtain out1 cur u1 where c: "createMissing u = (out1, cur, u1)"
    by (cases "createMissing u")
  note s = createMissing_spec [OF c]
  show ?thesis
  proof (cases "out1 = Done")
    case True
    from channelMaintenance_Done [OF c [unfolded True]] assms obtain d where
      "u' = u1\<lparr>discordClient := d\<rparr>" by auto
    with s True show ?thesis by (simp add: framed_def)
  next
    case False
    from channelMaintenance_stopped [OF c False] assms have "out = out1" "u' = u1" by simp_all
    with s False show ?thesis by simp
  qed
qed


subsection \<open>\<open>doUpdate\<close>\<close>

lemma lastPost_frame:
  assumes "lastPost e u = (r, u')"
  shows "sendingMessages u' = sendingMessages u \<and> twitterLists u' = twitterLists u \<and>
         categoryName u' = categoryName u \<and> guildID u' = guildID u"
proof (cases "length (messages e) > 0")
  case True
  with assms show ?thesis by (simp add: lastPost_def)
next
  case False
  show ?thesis
  proof (cases "atRateLimit (makeURL CHANNEL_MESSAGES (channelID e)) (discordClient u)")
    case True
    with assms False show ?thesis by (auto simp: lastPost_def checkMessageRateLimit_def)
  next
    case nl: False
    obtain res d where g: "getChannelMessages (channelID e) (Some 1) (discordClient u) = (res, d)"
      by (cases "getChannelMessages (channelID e) (Some 1) (discordClient u)")
    show ?thesis
    proof (cases res)
      case (Inl err)
      with assms False nl g show ?thesis by (auto simp: lastPost_def checkMessageRateLimit_def)
    next
      case (Inr b)
      with assms False nl g show ?thesis
        by (cases b) (auto simp: lastPost_def checkMessageRateLimit_def)
    qed
  qed
qed

lemma fetchList_spec:
  assumes "fetchList n e u = (out, e', u')"
  shows "lid e' = lid e \<and> channelID e' = channelID e \<and>
         sendingMessages u' = sendingMessages u \<and> twitterLists u' = twitterLists u \<and>
         categoryName u' = categoryName u \<and> guildID u' = guildID u"
proof -
  obtain r u1 where lp: "lastPost e u = (r, u1)" by (cases "lastPost e u")
  note f = lastPost_frame [OF lp]
  show ?thesis
  proof (cases r)
    case (Inl out1)
    with assms lp f show ?thesis by (auto simp: fetchList_def)
  next
    case (Inr lastPostID)
    obtain rep t where tr: "tw_request
                  (GetListTimeline (lid e) lastPostID
                     (if lastPostID = None then Some 100 else None))
                  (twitterClient u1) = (rep, t)"
      by (cases "tw_request
                  (GetListTimeline (lid e) lastPostID
                     (if lastPostID = None then Some 100 else None))
                  (twitterClient u1)")
    with assms lp f Inr show ?thesis by (cases rep) (auto simp: fetchList_def)
  qed
qed

lemma fetchAll_spec:
  assumes "fetchAll u = (out, u')"
  shows "list_all2 bound_kept (twitterLists u) (twitterLists u') \<and>
         sendingMessages u' = sendingMessages u"
proof -
  obtain out1 tls' u1 where l: "for_each_list fetchList (twitterLists u) u = (out1, tls', u1)"
    by (cases "for_each_list fetchList (twitterLists u) u")
  with assms have r: "out = out1" "u' = u1\<lparr>twitterLists := tls'\<rparr>"
    by (simp_all add: fetchAll_def)
  have "list_all2 bound_kept (twitterLists u) tls'"
  proof (rule for_each_list_rel [where body = fetchList, OF _ _ l])
    fix n e s out e' s'
    assume "fetchList n e s = (out, e', s')"
    from fetchList_spec [OF this] show "bound_kept (n, e) (n, e')" by (simp add: bound_kept_def)
  next
    fix x show "bound_kept x x" by (rule bound_kept_refl)
  qed
  moreover have "fetch_inv u u1"
  proof (rule for_each_list_state [where body = fetchList and Q = fetch_inv, OF _ _ _ l])
    fix n e s out e' s'
    assume "fetchList n e s = (out, e', s')"
    from fetchList_spec [OF this] show "fetch_inv s s'" by (simp add: fetch_inv_def)
  next
    fix s show "fetch_inv s s" by (simp add: fetch_inv_def)
  next
    fix a b c assume "fetch_inv a b" "fetch_inv b c"
    then show "fetch_inv a c" by (simp add: fetch_inv_def)
  qed
  ultimately show ?thesis using r by (simp add: fetch_inv_def)
qed

lemma scheduleNext_frame:
  assumes "scheduleNext u = (out, u')"
  shows "twitterLists u' = twitterLists u \<and> sendingMessages u' = sendingMessages u"
proof -
  obtain rep t where r: "tw_request (CheckRateLimit ''/lists/statuses.json'') (twitterClient u)
      = (rep, t)"
    by (cases "tw_request (CheckRateLimit ''/lists/statuses.json'') (twitterClient u)")
  with assms show ?thesis by (cases rep) (auto simp: scheduleNext_def)
qed

lemma sendIfIdle_kept:
  assumes "sendIfIdle u = (out, u')"
  shows "list_all2 bound_kept (twitterLists u) (twitterLists u')"
proof (cases "sendingMessages u")
  case True
  with assms show ?thesis by (simp add: sendIfIdle_def list_all2_refl bound_kept_refl)
next
  case False
  with assms have "sendMessages u = (out, u')" by (simp add: sendIfIdle_def)
  from sendMessages_drained [OF this] show ?thesis
    by (rule list_all2_mono) (rule drained_to_bound_kept)
qed

lemma sendIfIdle_busy:
  "sendingMessages u \<Longrightarrow> sendIfIdle u = (Done, u)"
  by (simp add: sendIfIdle_def)

text \<open>
  \<open>doUpdate\<close> runs its steps one after the other and ends after one of them, so a
  relation that every step keeps, and that is reflexive and transitive, holds between
  the updater before and after.
\<close>

lemma doUpdate_invariant:
  assumes run: "doUpdate u = (out, u')"
    and s1: "\<And>a b x. updateTwitterLists a = (x, b) \<Longrightarrow> Q a b"
    and s2: "\<And>a b x. channelMaintenance a = (x, b) \<Longrightarrow> Q a b"
    and s3: "\<And>a b x. fetchAll a = (x, b) \<Longrightarrow> Q a b"
    and s4: "\<And>a b x. sendIfIdle a = (x, b) \<Longrightarrow> Q a b"
    and s5: "\<And>a b x. scheduleNext a = (x, b) \<Longrightarrow> Q a b"
    and refl: "\<And>a. Q a a"
    and trans: "\<And>a b c. Q a b \<Longrightarrow> Q b c \<Longrightarrow> Q a c"
  shows "Q u u'"
proof (cases "categoryName u = None")
  case True
  with run show ?thesis by (simp add: doUpdate_def refl)
next
  case False
  obtain o1 u1 where r1: "updateTwitterLists u = (o1, u1)" by (cases "updateTwitterLists u")
  obtain o2 u2 where r2: "channelMaintenance u1 = (o2, u2)" by (cases "channelMaintenance u1")
  obtain o3 u3 where r3: "fetchAll u2 = (o3, u3)" by (cases "fetchAll u2")
  obtain o4 u4 where r4: "sendIfIdle u3 = (o4, u4)" by (cases "sendIfIdle u3")
  obtain o5 u5 where r5: "scheduleNext u4 = (o5, u5)" by (cases "scheduleNext u4")
  have q1: "Q u u1" using r1 by (rule s1)
  have q2: "Q u u2" using q1 s2 [OF r2] by (rule trans)
  have q3: "Q u u3" using q2 s3 [OF r3] by (rule trans)
  have q4: "Q u u4" using q3 s4 [OF r4] by (rule trans)
  have q5: "Q u u5" using q4 s5 [OF r5] by (rule trans)
  from run False r1 r2 r3 r4 r5
  have "u' = u1 \<or> u' = u2 \<or> u' = u3 \<or> u' = u4 \<or> u' = u5"
    by (cases o1; cases o2; cases o3; cases o4) (simp_all add: doUpdate_def)
  with q1 q2 q3 q4 q5 show ?thesis by auto
qed


lemma doUpdate_kept:
  assumes "doUpdate u = (out, u')"
  shows "kept (twitterLists u) (twitterLists u')"
proof (rule doUpdate_invariant [where Q = "\<lambda>a b. kept (twitterLists a) (twitterLists b)", OF assms])
  fix a b x assume "updateTwitterLists a = (x, b)"
  from updateTwitterLists_appends [OF this] show "kept (twitterLists a) (twitterLists b)"
    using kept_append by auto
next
  fix a b x assume "channelMaintenance a = (x, b)"
  from channelMaintenance_spec [OF this] show "kept (twitterLists a) (twitterLists b)"
    using kept_same_length by blast
next
  fix a b x assume "fetchAll a = (x, b)"
  from fetchAll_spec [OF this] show "kept (twitterLists a) (twitterLists b)"
    using kept_same_length by blast
next
  fix a b x assume "sendIfIdle a = (x, b)"
  from sendIfIdle_kept [OF this] show "kept (twitterLists a) (twitterLists b)"
    by (rule kept_same_length)
next
  fix a b x assume "scheduleNext a = (x, b)"
  from scheduleNext_frame [OF this] show "kept (twitterLists a) (twitterLists b)"
    by (simp add: kept_refl)
next
  fix a :: TwitterUpdater show "kept (twitterLists a) (twitterLists a)" by (rule kept_refl)
next
  fix a b c :: TwitterUpdater
  assume "kept (twitterLists a) (twitterLists b)" "kept (twitterLists b) (twitterLists c)"
  then show "kept (twitterLists a) (twitterLists c)" by (rule kept_trans)
qed

lemma kept_nth:
  assumes "kept old new" "i < length old"
  shows "fst (new ! i) = fst (old ! i) \<and> lid (snd (new ! i)) = lid (snd (old ! i)) \<and>
         (channelID (snd (old ! i)) = None \<or>
          channelID (snd (new ! i)) = channelID (snd (old ! i)))"
proof -
  from assms have "bound_kept (old ! i) (take (length old) new ! i)"
    by (simp add: kept_def list_all2_conv_all_nth)
  with assms(2) show ?thesis by (simp add: bound_kept_def)
qed

subsection \<open>Claim C9\<close>

text \<open>
  C9.  None of \<open>updateTwitterLists\<close>, \<open>channelMaintenance\<close>, \<open>sendMessages\<close> and
  \<open>doUpdate\<close>, however it ends, removes or moves an entry of \<open>twitterLists\<close> or
  changes its name or id, and none changes a \<open>channelID\<close> that is not \<open>None\<close>.
  \<open>updateTwitterLists\<close> only appends entries, and \<open>sendMessages\<close> leaves every
  \<open>channelID\<close> as it is, so a channel is bound by \<open>channelMaintenance\<close> alone, to an
  entry that has none, and never again.
\<close>

theorem channelID_bound_once:
  "(updateTwitterLists u = (out, u') \<longrightarrow>
      (\<exists>added. twitterLists u' = twitterLists u @ added)) \<and>
   (channelMaintenance u = (out, u') \<longrightarrow>
      list_all2 bound_kept (twitterLists u) (twitterLists u')) \<and>
   (sendMessages u = (out, u') \<longrightarrow>
      list_all2 drained_to (twitterLists u) (twitterLists u')) \<and>
   (updateTwitterLists u = (out, u') \<or> channelMaintenance u = (out, u') \<or>
    sendMessages u = (out, u') \<or> doUpdate u = (out, u') \<longrightarrow>
      length (twitterLists u) \<le> length (twitterLists u') \<and>
      (\<forall>i<length (twitterLists u).
         fst (twitterLists u' ! i) = fst (twitterLists u ! i) \<and>
         lid (snd (twitterLists u' ! i)) = lid (snd (twitterLists u ! i)) \<and>
         (channelID (snd (twitterLists u ! i)) = None \<or>
          channelID (snd (twitterLists u' ! i)) = channelID (snd (twitterLists u ! i)))))"
proof -
  have a: "updateTwitterLists u = (out, u') \<longrightarrow>
      (\<exists>added. twitterLists u' = twitterLists u @ added)"
    using updateTwitterLists_appends by blast
  have b: "channelMaintenance u = (out, u') \<longrightarrow>
      list_all2 bound_kept (twitterLists u) (twitterLists u')"
    using channelMaintenance_spec by blast
  have c: "sendMessages u = (out, u') \<longrightarrow>
      list_all2 drained_to (twitterLists u) (twitterLists u')"
    using sendMessages_drained by blast
  have k: "kept (twitterLists u) (twitterLists u')"
    if "updateTwitterLists u = (out, u') \<or> channelMaintenance u = (out, u') \<or>
        sendMessages u = (out, u') \<or> doUpdate u = (out, u')"
    using that
  proof (elim disjE)
    assume "updateTwitterLists u = (out, u')"
    with a kept_append show ?thesis by auto
  next
    assume "channelMaintenance u = (out, u')"
    with b kept_same_length show ?thesis by blast
  next
    assume "sendMessages u = (out, u')"
    with c have "list_all2 bound_kept (twitterLists u) (twitterLists u')"
      using drained_to_bound_kept list_all2_mono by blast
    then show ?thesis by (rule kept_same_length)
  next
    assume "doUpdate u = (out, u')"
    then show ?thesis by (rule doUpdate_kept)
  qed
  have d: "updateTwitterLists u = (out, u') \<or> channelMaintenance u = (out, u') \<or>
    sendMessages u = (out, u') \<or> doUpdate u = (out, u') \<longrightarrow>
      length (twitterLists u) \<le> length (twitterLists u') \<and>
      (\<forall>i<length (twitterLists u).
         fst (twitterLists u' ! i) = fst (twitterLists u ! i) \<and>
         lid (snd (twitterLists u' ! i)) = lid (snd (twitterLists u ! i)) \<and>
         (channelID (snd (twitterLists u ! i)) = None \<or>
          channelID (snd (twitterLists u' ! i)) = channelID (snd (twitterLists u ! i))))"
  proof
    assume h: "updateTwitterLists u = (out, u') \<or> channelMaintenance u = (out, u') \<or>
        sendMessages u = (out, u') \<or> doUpdate u = (out, u')"
    from k [OF h] have "length (twitterLists u) \<le> length (twitterLists u')"
      by (simp add: kept_def)
    with kept_nth [OF k [OF h]] show "length (twitterLists u) \<le> length (twitterLists u') \<and>
      (\<forall>i<length (twitterLists u).
         fst (twitterLists u' ! i) = fst (twitterLists u ! i) \<and>
         lid (snd (twitterLists u' ! i)) = lid (snd (twitterLists u ! i)) \<and>
         (channelID (snd (twitterLists u ! i)) = None \<or>
          channelID (snd (twitterLists u' ! i)) = channelID (snd (twitterLists u ! i))))"
      by blast
  qed
  from a b c d show ?thesis by (intro conjI)
qed


subsection \<open>Which steps deliver messages\<close>


lemma awaitRateLimit_calls: "calls (awaitRateLimit url d) = calls d"
proof (induction url d rule: awaitRateLimit.induct)
  case (1 url d)
  show ?case
  proof (cases "atRateLimit url d")
    case True
    with "1.IH" show ?thesis by (subst awaitRateLimit.simps) simp
  next
    case False
    then show ?thesis by (subst awaitRateLimit.simps) simp
  qed
qed














section \<open>Running the examples\<close>

lemmas run_defs =
  sendMessages_def sendList_def checkMessageRateLimit_def atRateLimit_def makeURL_def
  CHANNEL_MESSAGES_def GUILD_CHANNELS_def BASE_URL_def createChannelMessage_def checked_def
  request_def checkResponse_def new_updater_def new_client_def new_twitter_def reply_ok_def
  messages_url_def guild_url_def later_def Let_def doUpdate_def updateTwitterLists_def
  tw_request_def channelMaintenance_def createMissing_def getGuildChannels_def
  ensureCategory_def findCategory_def bindList_def positionPairs_def
  modifyGuildChannelPositions_def fetchAll_def fetchList_def lastPost_def
  getChannelMessages_def sendIfIdle_def scheduleNext_def ex_category_def text_channel_def
  GUILD_CATEGORY_def GUILD_TEXT_def createGuildChannel_def enumerate_eq_zip lower_def
  lower_char_def awaitRateLimit.simps

subsection \<open>The bound channel in the examples\<close>

theorem channelID_bound_once_witness:
  "fst (updateTwitterLists ex_update) = Done \<and>
   map fst (twitterLists (snd (updateTwitterLists ex_update))) = [''news'', ''sport''] \<and>
   fst (channelMaintenance ex_update) = Done \<and>
   fst (sendMessages ex_queue) = Deferred \<and>
   fst (doUpdate ex_update) = Done \<and>
   channelID (snd (twitterLists ex_update ! 0)) = Some ''7'' \<and>
   map (channelID \<circ> snd) (twitterLists (snd (doUpdate ex_update))) = [Some ''7'', Some ''8''] \<and>
   channelID (snd (twitterLists (snd (updateTwitterLists ex_update)) ! 0)) = Some ''7'' \<and>
   channelID (snd (twitterLists (snd (channelMaintenance ex_update)) ! 0)) = Some ''7'' \<and>
   channelID (snd (twitterLists (snd (sendMessages ex_queue)) ! 0)) = Some ''7'' \<and>
   channelID (snd (twitterLists (snd (doUpdate ex_update)) ! 0)) = Some ''7''"
proof -
  have e1: "fst (updateTwitterLists ex_update) = Done"
    "map fst (twitterLists (snd (updateTwitterLists ex_update))) = [''news'', ''sport'']"
    by (simp_all add: ex_update_def run_defs)
  have e2: "fst (channelMaintenance ex_update) = Done" by (simp add: ex_update_def run_defs)
  have e3: "fst (sendMessages ex_queue) = Deferred" by (simp add: ex_queue_def run_defs)
  have e4: "fst (doUpdate ex_update) = Done"
    "map (channelID \<circ> snd) (twitterLists (snd (doUpdate ex_update))) = [Some ''7'', Some ''8'']"
    by (simp_all add: ex_update_def run_defs)
  have l0: "length (twitterLists ex_update) = 1" "channelID (snd (twitterLists ex_update ! 0)) = Some ''7''"
    "length (twitterLists ex_queue) = 1" "channelID (snd (twitterLists ex_queue ! 0)) = Some ''7''"
    by (simp_all add: ex_update_def ex_queue_def new_updater_def)
  have p1: "updateTwitterLists ex_update =
      (fst (updateTwitterLists ex_update), snd (updateTwitterLists ex_update))" by simp
  have p2: "channelMaintenance ex_update =
      (fst (channelMaintenance ex_update), snd (channelMaintenance ex_update))" by simp
  have p3: "sendMessages ex_queue = (fst (sendMessages ex_queue), snd (sendMessages ex_queue))"
    by simp
  have p4: "doUpdate ex_update = (fst (doUpdate ex_update), snd (doUpdate ex_update))" by simp
  have c1: "channelID (snd (twitterLists (snd (updateTwitterLists ex_update)) ! 0)) = Some ''7''"
    using channelID_bound_once [of ex_update "fst (updateTwitterLists ex_update)"
        "snd (updateTwitterLists ex_update)"] p1 l0 by auto
  have c2: "channelID (snd (twitterLists (snd (channelMaintenance ex_update)) ! 0)) = Some ''7''"
    using channelID_bound_once [of ex_update "fst (channelMaintenance ex_update)"
        "snd (channelMaintenance ex_update)"] p2 l0 by auto
  have c3: "channelID (snd (twitterLists (snd (sendMessages ex_queue)) ! 0)) = Some ''7''"
    using channelID_bound_once [of ex_queue "fst (sendMessages ex_queue)"
        "snd (sendMessages ex_queue)"] p3 l0 by auto
  have c4: "channelID (snd (twitterLists (snd (doUpdate ex_update)) ! 0)) = Some ''7''"
    using channelID_bound_once [of ex_update "fst (doUpdate ex_update)"
        "snd (doUpdate ex_update)"] p4 l0 by auto
  from e1 e2 e3 e4 l0(2) c1 c2 c3 c4 show ?thesis by (intro conjI)
qed

subsection \<open>Claim C8\<close>




section \<open>Properties of the reposition batch\<close>

lemma enumerate_nth: "enumerate 0 xs = map (\<lambda>i. (i, xs ! i)) [0..<length xs]"
proof -
  have "zip [0..<length xs] xs = map (\<lambda>i. (i, xs ! i)) [0..<length xs]"
    by (rule nth_equalityI) simp_all
  then show ?thesis by (simp add: enumerate_eq_zip)
qed

lemma positionPairs_nth:
  "positionPairs old new =
     [(cid (new ! i), i). i \<leftarrow> [0..<length new], new ! i \<noteq> old ! i]"
  unfolding positionPairs_def enumerate_nth by (simp add: map_concat comp_def)

lemma positionPairs_member:
  assumes "i < length new" "new ! i \<noteq> old ! i"
  shows "(cid (new ! i), i) \<in> set (positionPairs old new)"
  unfolding positionPairs_nth using assms by auto

lemma positionPairs_Nil:
  assumes "length new = length old"
  shows "(positionPairs old new = []) = (new = old)"
proof
  assume e: "positionPairs old new = []"
  have "new ! i = old ! i" if "i < length new" for i
  proof (rule ccontr)
    assume "new ! i \<noteq> old ! i"
    from positionPairs_member [OF that this] e show False by simp
  qed
  with assms show "new = old" by (simp add: list_eq_iff_nth_eq)
next
  assume "new = old"
  then show "positionPairs old new = []" by (simp add: positionPairs_nth)
qed

lemma positionPairs_sorted:
  "(positionPairs cur (sort_key cname cur) = []) = sorted (map cname cur)"
proof -
  have "(sort_key cname cur = cur) = sorted (map cname cur)"
  proof
    assume "sort_key cname cur = cur"
    then have "map cname cur = map cname (sort_key cname cur)" by simp
    then show "sorted (map cname cur)" by (simp only: sorted_sort_key)
  next
    assume "sorted (map cname cur)"
    then show "sort_key cname cur = cur" by (rule sort_key_id_if_sorted)
  qed
  then show ?thesis by (simp add: positionPairs_Nil)
qed

lemma zeta_alpha_mike:
  assumes "cname z = ''Zeta''" "cname a = ''Alpha''" "cname m = ''Mike''"
  shows "sort_key cname [z, a, m] = [a, m, z]"
    and "positionPairs [z, a, m] (sort_key cname [z, a, m]) = [(cid a, 0), (cid m, 1), (cid z, 2)]"
proof -
  show s: "sort_key cname [z, a, m] = [a, m, z]" using assms by simp
  have "a \<noteq> z" "m \<noteq> a" "z \<noteq> m" using assms by auto
  then show "positionPairs [z, a, m] (sort_key cname [z, a, m]) = [(cid a, 0), (cid m, 1), (cid z, 2)]"
    unfolding s by (simp add: positionPairs_def enumerate_eq_zip upt_rec)
qed

lemma channelMaintenance_log:
  assumes "createMissing u = (Done, cur, u1)"
  shows "map fst (calls (discordClient (snd (channelMaintenance u)))) =
           map fst (calls (discordClient u1)) @
             (if positionPairs cur (sort_key cname cur) = [] then []
              else [ModifyGuildChannelPositions (guildID u)
                      (positionPairs cur (sort_key cname cur))])"
proof -
  from channelMaintenance_Done [OF assms] obtain r d where
    m: "modifyGuildChannelPositions (guildID u1)
          (positionPairs cur (sort_key cname cur)) (discordClient u1) = (r, d)"
    and c: "snd (channelMaintenance u) = u1\<lparr>discordClient := d\<rparr>" by auto
  from createMissing_spec [OF assms] have "guildID u1 = guildID u" by (simp add: framed_def)
  with modifyGuildChannelPositions_log [OF m] c show ?thesis by simp
qed



section \<open>How a drain pass ends\<close>

lemma for_each_list_stops:
  assumes "for_each_list body pre s = (Done, pre', s1)"
    and "body n e s1 = (out, e', s2)" "out \<noteq> Done"
  shows "for_each_list body (pre @ (n, e) # post) s = (out, pre' @ (n, e') # post, s2)"
  using assms(1)
proof (induction pre arbitrary: s pre')
  case Nil
  then have "s1 = s" "pre' = []" by simp_all
  with assms(2,3) show ?case by (cases out) simp_all
next
  case (Cons a pre)
  obtain m f where a: "a = (m, f)" by (cases a)
  from Cons.prems [unfolded a] show ?case
  proof (cases rule: for_each_list_Cons_cases)
    case (stop e1)
    then show ?thesis by simp
  next
    case (go e1 s0 rest')
    from Cons.IH [OF go(2)] go(1,3) a show ?thesis by simp
  qed
qed

lemma sendList_limited:
  assumes "atRateLimit (makeURL CHANNEL_MESSAGES (channelID e)) (discordClient u)"
    and "messages e \<noteq> []"
  shows "sendList n e u = (Deferred, e, u\<lparr>scheduler := scheduler u @ [Enter 10 0 SendMessages]\<rparr>)"
proof -
  obtain m ms where "messages e = m # ms" using assms(2) by (cases "messages e") auto
  with assms(1) show ?thesis by (simp add: sendList_def checkMessageRateLimit_def)
qed

lemma sendMessages_stops:
  assumes lists: "twitterLists u = pre @ (n, e) # post"
    and before: "for_each_list sendList pre (u\<lparr>sendingMessages := True\<rparr>) = (Done, pre', u1)"
    and limited: "atRateLimit (makeURL CHANNEL_MESSAGES (channelID e)) (discordClient u1)"
    and queued: "messages e \<noteq> []"
  shows "sendMessages u =
           (Deferred, u1\<lparr>scheduler := scheduler u1 @ [Enter 10 0 SendMessages],
                          twitterLists := pre' @ (n, e) # post\<rparr>)"
    and "pre' = map (\<lambda>(n, e). (n, e\<lparr>messages := []\<rparr>)) pre"
proof -
  from sendList_limited [OF limited queued]
  have "sendList n e u1 =
      (Deferred, e, u1\<lparr>scheduler := scheduler u1 @ [Enter 10 0 SendMessages]\<rparr>)" .
  from for_each_list_stops [OF before this]
  have "for_each_list sendList (twitterLists (u\<lparr>sendingMessages := True\<rparr>))
          (u\<lparr>sendingMessages := True\<rparr>) =
        (Deferred, pre' @ (n, e) # post,
         u1\<lparr>scheduler := scheduler u1 @ [Enter 10 0 SendMessages]\<rparr>)"
    using lists by simp
  then show "sendMessages u =
           (Deferred, u1\<lparr>scheduler := scheduler u1 @ [Enter 10 0 SendMessages],
                          twitterLists := pre' @ (n, e) # post\<rparr>)"
    by (simp add: sendMessages_def)
  from send_all_Done [OF before]
  show "pre' = map (\<lambda>(n, e). (n, e\<lparr>messages := []\<rparr>)) pre" by simp
qed

text \<open>The decomposition of a pass that stopped at a rate limit, by index.\<close>

lemma stopped_at_index:
  assumes "tls = pre @ (n, e) # post"
    and "tls' = map (\<lambda>(n, e). (n, e\<lparr>messages := []\<rparr>)) pre @
                    (n, e\<lparr>messages := drop k (messages e)\<rparr>) # post"
    and "k < length (messages e)"
  shows "length pre < length tls \<and>
         channelID (snd (tls ! length pre)) = channelID e \<and>
         messages (snd (tls' ! length pre)) \<noteq> [] \<and>
         (\<forall>j<length pre. messages (snd (tls' ! j)) = []) \<and>
         (\<forall>j. length pre < j \<and> j < length tls \<longrightarrow> tls' ! j = tls ! j)"
proof -
  let ?pre' = "map (\<lambda>(n, e). (n, e\<lparr>messages := []\<rparr>)) pre"
  have l: "length ?pre' = length pre" by simp
  have a: "messages (snd (tls' ! j)) = []" if "j < length pre" for j
  proof -
    from that have "tls' ! j = ?pre' ! j" unfolding assms(2) by (simp add: nth_append)
    with that show ?thesis by (simp add: split_beta)
  qed
  have b: "tls' ! j = tls ! j" if "length pre < j" "j < length tls" for j
  proof -
    from that(1) obtain i where j: "j = length pre + Suc i"
      by (metis less_iff_Suc_add add_Suc_right)
    have "tls' ! (length ?pre' + Suc i) = post ! i"
      unfolding assms(2) by (simp only: nth_append_length_plus) simp
    moreover have "tls ! (length pre + Suc i) = post ! i"
      unfolding assms(1) by (simp only: nth_append_length_plus) simp
    ultimately show ?thesis using j by simp
  qed
  have c: "tls' ! length pre = (n, e\<lparr>messages := drop k (messages e)\<rparr>)"
    unfolding assms(2) using nth_append_length [of ?pre'] by simp
  have d: "tls ! length pre = (n, e)" unfolding assms(1) by simp
  from a b c d assms(1,3) show ?thesis by simp
qed

lemma sendMessages_stopped:
  assumes "sendMessages u = (Deferred, u')"
  shows "\<exists>i<length (twitterLists u).
           atRateLimit (makeURL CHANNEL_MESSAGES (channelID (snd (twitterLists u ! i))))
             (discordClient u') \<and>
           messages (snd (twitterLists u' ! i)) \<noteq> [] \<and>
           (\<forall>j<i. messages (snd (twitterLists u' ! j)) = []) \<and>
           (\<forall>j. i < j \<and> j < length (twitterLists u) \<longrightarrow> twitterLists u' ! j = twitterLists u ! j)"
  using assms
proof (cases rule: sendMessages_cases)
  case (1 tls' u1)
  from send_all_Deferred [OF 1(1)] obtain pre n e post k where
    h: "twitterLists u = pre @ (n, e) # post"
       "tls' = map (\<lambda>(n, e). (n, e\<lparr>messages := []\<rparr>)) pre @
                    (n, e\<lparr>messages := drop k (messages e)\<rparr>) # post"
       "k < length (messages e)"
       "atRateLimit (makeURL CHANNEL_MESSAGES (channelID e)) (discordClient u1)"
    by auto
  from stopped_at_index [OF h(1,2,3)] h(4) 1(2)
  have "length pre < length (twitterLists u) \<and>
        atRateLimit (makeURL CHANNEL_MESSAGES (channelID (snd (twitterLists u ! length pre))))
             (discordClient u') \<and>
           messages (snd (twitterLists u' ! length pre)) \<noteq> [] \<and>
           (\<forall>j<length pre. messages (snd (twitterLists u' ! j)) = []) \<and>
           (\<forall>j. length pre < j \<and> j < length (twitterLists u) \<longrightarrow>
               twitterLists u' ! j = twitterLists u ! j)"
    by simp
  then show ?thesis by blast
qed

lemma sendMessages_emptied:
  assumes "sendMessages u = (Done, u')"
  shows "list_all (\<lambda>x. messages (snd x) = []) (twitterLists u')"
  using assms
proof (cases rule: sendMessages_cases)
  case (1 tls' u1)
  from send_all_Done [OF 1(1)]
  have "tls' = map (\<lambda>(n, e). (n, e\<lparr>messages := []\<rparr>)) (twitterLists u)" by simp
  with 1(2) show ?thesis by (simp add: list_all_iff split_beta)
qed



subsection \<open>Claim C1\<close>

text \<open>
  C1.  A drain pass (\<open>sendMessages\<close>) that ends without an exception leaves every list
  with its name, id and channel, pops a front part of each queue and nothing else, and
  has issued, list after list and in queue order, exactly one successful delivery for
  each popped message and no other request.  A pass that runs to its end has emptied
  every queue, so it has delivered every message.  A pass that returns early has
  stopped at a list whose channel is rate limited: the queues before that list are
  empty, that list keeps a non-empty rest of its queue, the old queue from the position
  \<open>k\<close> reached, and the lists after it are as they were.  A later pass that starts from
  the queues as they were left does the same, so it resumes at position \<open>k\<close>: over
  both passes every message of the old queue is either delivered once, in order, or
  still queued behind the delivered ones.
\<close>

theorem drain_in_order:
  assumes "sendMessages u = (out, u1)" "out = Done \<or> out = Deferred"
    and "twitterLists u2 = twitterLists u1"
    and "sendMessages u2 = (out2, u3)" "out2 = Done \<or> out2 = Deferred"
  shows "list_all2 drained_to (twitterLists u) (twitterLists u1) \<and>
         calls (discordClient u1) =
           calls (discordClient u) @ pass_log (twitterLists u) (twitterLists u1) \<and>
         list_all2 drained_to (twitterLists u1) (twitterLists u3) \<and>
         calls (discordClient u3) =
           calls (discordClient u2) @ pass_log (twitterLists u1) (twitterLists u3) \<and>
         (\<forall>i<length (twitterLists u).
            messages (snd (twitterLists u1 ! i)) =
              drop (length (popped (snd (twitterLists u ! i)) (snd (twitterLists u1 ! i))))
                (messages (snd (twitterLists u ! i))) \<and>
            messages (snd (twitterLists u ! i)) =
              popped (snd (twitterLists u ! i)) (snd (twitterLists u1 ! i)) @
              popped (snd (twitterLists u1 ! i)) (snd (twitterLists u3 ! i)) @
              messages (snd (twitterLists u3 ! i))) \<and>
         (out = Done \<longrightarrow> list_all (\<lambda>x. messages (snd x) = []) (twitterLists u1)) \<and>
         (out = Deferred \<longrightarrow>
            (\<exists>i<length (twitterLists u).
               atRateLimit (makeURL CHANNEL_MESSAGES (channelID (snd (twitterLists u ! i))))
                 (discordClient u1) \<and>
               messages (snd (twitterLists u1 ! i)) \<noteq> [] \<and>
               (\<forall>j<i. messages (snd (twitterLists u1 ! j)) = []) \<and>
               (\<forall>j. i < j \<and> j < length (twitterLists u) \<longrightarrow>
                  twitterLists u1 ! j = twitterLists u ! j))) \<and>
         (out2 = Done \<longrightarrow> list_all (\<lambda>x. messages (snd x) = []) (twitterLists u3)) \<and>
         (out2 = Deferred \<longrightarrow>
            (\<exists>i<length (twitterLists u1).
               atRateLimit (makeURL CHANNEL_MESSAGES (channelID (snd (twitterLists u1 ! i))))
                 (discordClient u3) \<and>
               messages (snd (twitterLists u3 ! i)) \<noteq> [] \<and>
               (\<forall>j<i. messages (snd (twitterLists u3 ! j)) = []) \<and>
               (\<forall>j. i < j \<and> j < length (twitterLists u1) \<longrightarrow>
                  twitterLists u3 ! j = twitterLists u1 ! j)))"
proof -
  have d1: "list_all2 drained_to (twitterLists u) (twitterLists u1)"
    using assms(1) by (rule sendMessages_drained)
  have d2: "list_all2 drained_to (twitterLists u1) (twitterLists u3)"
    using sendMessages_drained [OF assms(4)] assms(3) by simp
  have l1: "calls (discordClient u1) =
           calls (discordClient u) @ pass_log (twitterLists u) (twitterLists u1)"
    using assms(1,2) by (rule sendMessages_log)
  have l2: "calls (discordClient u3) =
           calls (discordClient u2) @ pass_log (twitterLists u1) (twitterLists u3)"
    using sendMessages_log [OF assms(4,5)] assms(3) by simp
  have ix: "\<forall>i<length (twitterLists u).
            messages (snd (twitterLists u1 ! i)) =
              drop (length (popped (snd (twitterLists u ! i)) (snd (twitterLists u1 ! i))))
                (messages (snd (twitterLists u ! i))) \<and>
            messages (snd (twitterLists u ! i)) =
              popped (snd (twitterLists u ! i)) (snd (twitterLists u1 ! i)) @
              popped (snd (twitterLists u1 ! i)) (snd (twitterLists u3 ! i)) @
              messages (snd (twitterLists u3 ! i))"
  proof (intro allI impI)
    fix i assume i: "i < length (twitterLists u)"
    from d1 i have a: "drained_to (twitterLists u ! i) (twitterLists u1 ! i)"
      by (simp add: list_all2_conv_all_nth)
    from d1 d2 i have b: "drained_to (twitterLists u1 ! i) (twitterLists u3 ! i)"
      by (simp add: list_all2_conv_all_nth)
    from a b have "messages (snd (twitterLists u ! i)) =
              popped (snd (twitterLists u ! i)) (snd (twitterLists u1 ! i)) @
              popped (snd (twitterLists u1 ! i)) (snd (twitterLists u3 ! i)) @
              messages (snd (twitterLists u3 ! i))"
      by (simp add: drained_to_def)
    with drained_to_position [OF a]
    show "messages (snd (twitterLists u1 ! i)) =
              drop (length (popped (snd (twitterLists u ! i)) (snd (twitterLists u1 ! i))))
                (messages (snd (twitterLists u ! i))) \<and>
            messages (snd (twitterLists u ! i)) =
              popped (snd (twitterLists u ! i)) (snd (twitterLists u1 ! i)) @
              popped (snd (twitterLists u1 ! i)) (snd (twitterLists u3 ! i)) @
              messages (snd (twitterLists u3 ! i))"
      by simp
  qed
  have e1: "out = Done \<longrightarrow> list_all (\<lambda>x. messages (snd x) = []) (twitterLists u1)"
    using assms(1) sendMessages_emptied by blast
  have e2: "out2 = Done \<longrightarrow> list_all (\<lambda>x. messages (snd x) = []) (twitterLists u3)"
    using assms(4) sendMessages_emptied by blast
  have s1: "out = Deferred \<longrightarrow>
            (\<exists>i<length (twitterLists u).
               atRateLimit (makeURL CHANNEL_MESSAGES (channelID (snd (twitterLists u ! i))))
                 (discordClient u1) \<and>
               messages (snd (twitterLists u1 ! i)) \<noteq> [] \<and>
               (\<forall>j<i. messages (snd (twitterLists u1 ! j)) = []) \<and>
               (\<forall>j. i < j \<and> j < length (twitterLists u) \<longrightarrow>
                  twitterLists u1 ! j = twitterLists u ! j))"
  proof
    assume "out = Deferred"
    with assms(1) have "sendMessages u = (Deferred, u1)" by simp
    then show "\<exists>i<length (twitterLists u).
               atRateLimit (makeURL CHANNEL_MESSAGES (channelID (snd (twitterLists u ! i))))
                 (discordClient u1) \<and>
               messages (snd (twitterLists u1 ! i)) \<noteq> [] \<and>
               (\<forall>j<i. messages (snd (twitterLists u1 ! j)) = []) \<and>
               (\<forall>j. i < j \<and> j < length (twitterLists u) \<longrightarrow>
                  twitterLists u1 ! j = twitterLists u ! j)"
      by (rule sendMessages_stopped)
  qed
  have s2: "out2 = Deferred \<longrightarrow>
            (\<exists>i<length (twitterLists u1).
               atRateLimit (makeURL CHANNEL_MESSAGES (channelID (snd (twitterLists u1 ! i))))
                 (discordClient u3) \<and>
               messages (snd (twitterLists u3 ! i)) \<noteq> [] \<and>
               (\<forall>j<i. messages (snd (twitterLists u3 ! j)) = []) \<and>
               (\<forall>j. i < j \<and> j < length (twitterLists u1) \<longrightarrow>
                  twitterLists u3 ! j = twitterLists u1 ! j))"
  proof
    assume "out2 = Deferred"
    with assms(4) have "sendMessages u2 = (Deferred, u3)" by simp
    from sendMessages_stopped [OF this]
    show "\<exists>i<length (twitterLists u1).
               atRateLimit (makeURL CHANNEL_MESSAGES (channelID (snd (twitterLists u1 ! i))))
                 (discordClient u3) \<and>
               messages (snd (twitterLists u3 ! i)) \<noteq> [] \<and>
               (\<forall>j<i. messages (snd (twitterLists u3 ! j)) = []) \<and>
               (\<forall>j. i < j \<and> j < length (twitterLists u1) \<longrightarrow>
                  twitterLists u3 ! j = twitterLists u1 ! j)"
      unfolding assms(3) .
  qed
  from d1 l1 d2 l2 ix e1 s1 e2 s2 show ?thesis by (intro conjI)
qed

theorem drain_in_order_witness:
  "fst (sendMessages ex_queue) = Deferred \<and>
   fst (sendMessages (later 200 (snd (sendMessages ex_queue)))) = Done \<and>
   twitterLists (snd (sendMessages ex_queue)) =
     [(''News'', \<lparr>lid = 1, channelID = Some ''7'', messages = [''m2'', ''m3'']\<rparr>)] \<and>
   calls (discordClient (snd (sendMessages ex_queue))) =
     [(CreateChannelMessage (Some ''7'') ''m1'', True)] \<and>
   atRateLimit (makeURL CHANNEL_MESSAGES (Some ''7'')) (discordClient (snd (sendMessages ex_queue))) \<and>
   calls (discordClient (snd (sendMessages (later 200 (snd (sendMessages ex_queue)))))) =
     calls (discordClient (later 200 (snd (sendMessages ex_queue)))) @
     [(CreateChannelMessage (Some ''7'') ''m2'', True),
      (CreateChannelMessage (Some ''7'') ''m3'', True)] \<and>
   messages (snd (twitterLists ex_queue ! 0)) =
     [''m1''] @ [''m2'', ''m3''] @
     messages (snd (twitterLists (snd (sendMessages (later 200 (snd (sendMessages ex_queue))))) ! 0)) \<and>
   list_all (\<lambda>x. messages (snd x) = [])
     (twitterLists (snd (sendMessages (later 200 (snd (sendMessages ex_queue))))))"
proof -
  let ?u1 = "snd (sendMessages ex_queue)"
  let ?u2 = "later 200 ?u1"
  let ?u3 = "snd (sendMessages ?u2)"
  have p1: "sendMessages ex_queue = (fst (sendMessages ex_queue), ?u1)" by simp
  have p2: "sendMessages ?u2 = (fst (sendMessages ?u2), ?u3)" by simp
  have o1: "fst (sendMessages ex_queue) = Deferred" by (simp add: ex_queue_def run_defs)
  have t1: "twitterLists ?u1 =
     [(''News'', \<lparr>lid = 1, channelID = Some ''7'', messages = [''m2'', ''m3'']\<rparr>)]"
    by (simp add: ex_queue_def run_defs)
  have o2: "fst (sendMessages ?u2) = Done" by (simp add: ex_queue_def run_defs)
  have t3: "twitterLists ?u3 = [(''News'', \<lparr>lid = 1, channelID = Some ''7'', messages = []\<rparr>)]"
    by (simp add: ex_queue_def run_defs)
  have t0: "twitterLists ex_queue =
     [(''News'', \<lparr>lid = 1, channelID = Some ''7'', messages = [''m1'', ''m2'', ''m3'']\<rparr>)]"
    "calls (discordClient ex_queue) = []"
    by (simp_all add: ex_queue_def new_updater_def new_client_def)
  have t2: "twitterLists ?u2 = twitterLists ?u1" by (simp add: later_def)
  have o1': "fst (sendMessages ex_queue) = Done \<or> fst (sendMessages ex_queue) = Deferred"
    using o1 by simp
  have o2': "fst (sendMessages ?u2) = Done \<or> fst (sendMessages ?u2) = Deferred"
    using o2 by simp
  note t = drain_in_order [OF p1 o1' t2 p2 o2']
  note log1 = t [THEN conjunct2, THEN conjunct1]
  note log2 = t [THEN conjunct2, THEN conjunct2, THEN conjunct2, THEN conjunct1]
  note ix = t [THEN conjunct2, THEN conjunct2, THEN conjunct2, THEN conjunct2, THEN conjunct1,
      THEN spec, THEN mp, THEN conjunct2, of 0]
  note stop1 = t [THEN conjunct2, THEN conjunct2, THEN conjunct2, THEN conjunct2,
      THEN conjunct2, THEN conjunct2, THEN conjunct1, THEN mp, OF o1]
  note done2 = t [THEN conjunct2, THEN conjunct2, THEN conjunct2, THEN conjunct2,
      THEN conjunct2, THEN conjunct2, THEN conjunct2, THEN conjunct1, THEN mp, OF o2]
  have c1: "calls (discordClient ?u1) = [(CreateChannelMessage (Some ''7'') ''m1'', True)]"
    using log1 by (simp add: t0 t1 pass_log_def popped_def sent_def)
  have c3: "calls (discordClient ?u3) = calls (discordClient ?u2) @
     [(CreateChannelMessage (Some ''7'') ''m2'', True),
      (CreateChannelMessage (Some ''7'') ''m3'', True)]"
    using log2 by (simp add: t1 t3 pass_log_def popped_def sent_def)
  have m: "messages (snd (twitterLists ex_queue ! 0)) =
     [''m1''] @ [''m2'', ''m3''] @ messages (snd (twitterLists ?u3 ! 0))"
    using ix by (simp add: t0 t1 t3 popped_def)
  from stop1 obtain i where "i < length (twitterLists ex_queue)"
    "atRateLimit (makeURL CHANNEL_MESSAGES (channelID (snd (twitterLists ex_queue ! i))))
                 (discordClient ?u1)" by blast
  then have r: "atRateLimit (makeURL CHANNEL_MESSAGES (Some ''7'')) (discordClient ?u1)"
    by (simp add: t0)
  from o1 o2 t1 c1 r c3 m done2 show ?thesis by (intro conjI)
qed



subsection \<open>Claim C2\<close>

text \<open>
  C2 (as amended).  In a single drain pass over several lists, a list with a queued
  message whose channel is rate limited when its turn comes stops the whole pass:
  the lists before it have been emptied, one retry of \<open>sendMessages\<close> with a delay of
  10 seconds is entered, the flag stays set, the limited list keeps its queue, and the
  lists after it are left as they were, not looked at in this pass, whether their
  channels are rate limited or not.  Conversely every pass that returns early has
  this shape: some list kept its queue from the position reached, its channel is rate
  limited, the lists before it are emptied and the lists after it are untouched.
\<close>

theorem rate_limit_ends_pass:
  "(twitterLists u = pre @ (n, e) # post \<and>
    for_each_list sendList pre (u\<lparr>sendingMessages := True\<rparr>) = (Done, pre', u1) \<and>
    atRateLimit (makeURL CHANNEL_MESSAGES (channelID e)) (discordClient u1) \<and>
    messages e \<noteq> [] \<longrightarrow>
      sendMessages u =
        (Deferred, u1\<lparr>scheduler := scheduler u1 @ [Enter 10 0 SendMessages],
                       twitterLists := pre' @ (n, e) # post\<rparr>) \<and>
      pre' = map (\<lambda>(n, e). (n, e\<lparr>messages := []\<rparr>)) pre \<and>
      scheduler u1 = scheduler u \<and> sendingMessages u1) \<and>
   (sendMessages u = (Deferred, u') \<longrightarrow>
      (\<exists>pre n e post k.
           twitterLists u = pre @ (n, e) # post \<and>
           twitterLists u' = map (\<lambda>(n, e). (n, e\<lparr>messages := []\<rparr>)) pre @
                    (n, e\<lparr>messages := drop k (messages e)\<rparr>) # post \<and>
           k < length (messages e) \<and>
           atRateLimit (makeURL CHANNEL_MESSAGES (channelID e)) (discordClient u') \<and>
           scheduler u' = scheduler u @ [Enter 10 0 SendMessages] \<and>
           sendingMessages u'))"
proof -
  have a: "sendMessages u =
        (Deferred, u1\<lparr>scheduler := scheduler u1 @ [Enter 10 0 SendMessages],
                       twitterLists := pre' @ (n, e) # post\<rparr>) \<and>
      pre' = map (\<lambda>(n, e). (n, e\<lparr>messages := []\<rparr>)) pre \<and>
      scheduler u1 = scheduler u \<and> sendingMessages u1"
    if h: "twitterLists u = pre @ (n, e) # post"
      "for_each_list sendList pre (u\<lparr>sendingMessages := True\<rparr>) = (Done, pre', u1)"
      "atRateLimit (makeURL CHANNEL_MESSAGES (channelID e)) (discordClient u1)"
      "messages e \<noteq> []"
  proof -
    from send_all_Done [OF h(2)] have "scheduler u1 = scheduler u" by simp
    moreover from send_all_frame [OF h(2)] have "sendingMessages u1" by simp
    ultimately show ?thesis using sendMessages_stops [OF h] by simp
  qed
  have b: "\<exists>pre n e post k.
           twitterLists u = pre @ (n, e) # post \<and>
           twitterLists u' = map (\<lambda>(n, e). (n, e\<lparr>messages := []\<rparr>)) pre @
                    (n, e\<lparr>messages := drop k (messages e)\<rparr>) # post \<and>
           k < length (messages e) \<and>
           atRateLimit (makeURL CHANNEL_MESSAGES (channelID e)) (discordClient u') \<and>
           scheduler u' = scheduler u @ [Enter 10 0 SendMessages] \<and>
           sendingMessages u'"
    if run: "sendMessages u = (Deferred, u')"
    using run
  proof (cases rule: sendMessages_cases)
    case (1 tls' s1)
    from send_all_Deferred [OF 1(1)] 1(2) show ?thesis by simp
  qed
  from a b show ?thesis by blast
qed

theorem rate_limit_ends_pass_witness:
  "twitterLists ex_three_lists =
     [(''Alpha'', \<lparr>lid = 1, channelID = Some ''1'', messages = [''a'']\<rparr>)] @
     (''Beta'', \<lparr>lid = 2, channelID = Some ''2'', messages = [''b'']\<rparr>) #
     [(''Gamma'', \<lparr>lid = 3, channelID = Some ''3'', messages = [''c'']\<rparr>)] \<and>
   \<not> atRateLimit (makeURL CHANNEL_MESSAGES (Some ''3'')) (discordClient ex_three_lists) \<and>
   fst (sendMessages ex_three_lists) = Deferred \<and>
   twitterLists (snd (sendMessages ex_three_lists)) =
     [(''Alpha'', \<lparr>lid = 1, channelID = Some ''1'', messages = []\<rparr>),
      (''Beta'', \<lparr>lid = 2, channelID = Some ''2'', messages = [''b'']\<rparr>),
      (''Gamma'', \<lparr>lid = 3, channelID = Some ''3'', messages = [''c'']\<rparr>)] \<and>
   calls (discordClient (snd (sendMessages ex_three_lists))) =
     [(CreateChannelMessage (Some ''1'') ''a'', True)] \<and>
   scheduler (snd (sendMessages ex_three_lists)) = [Enter 10 0 SendMessages] \<and>
   sendingMessages (snd (sendMessages ex_three_lists))"
proof -
  let ?a = "(''Alpha'', \<lparr>lid = 1, channelID = Some ''1'', messages = [''a'']\<rparr>)"
  let ?b = "\<lparr>lid = 2, channelID = Some ''2'', messages = [''b'']\<rparr>"
  let ?c = "(''Gamma'', \<lparr>lid = 3, channelID = Some ''3'', messages = [''c'']\<rparr>)"
  let ?r = "for_each_list sendList [?a] (ex_three_lists\<lparr>sendingMessages := True\<rparr>)"
  let ?pre' = "fst (snd ?r)"
  let ?u1 = "snd (snd ?r)"
  have l: "twitterLists ex_three_lists = [?a] @ (''Beta'', ?b) # [?c]"
    by (simp add: ex_three_lists_def new_updater_def)
  have f: "fst ?r = Done" by (simp add: ex_three_lists_def run_defs)
  have before: "?r = (Done, ?pre', ?u1)" using f by (metis prod.collapse)
  have c: "calls (discordClient ?u1) = [(CreateChannelMessage (Some ''1'') ''a'', True)]"
    "scheduler ex_three_lists = []"
    by (simp_all add: ex_three_lists_def run_defs)
  have lim: "atRateLimit (makeURL CHANNEL_MESSAGES (channelID ?b)) (discordClient ?u1)"
    by (simp add: ex_three_lists_def run_defs)
  have q: "messages ?b \<noteq> []" by simp
  have free: "\<not> atRateLimit (makeURL CHANNEL_MESSAGES (Some ''3'')) (discordClient ex_three_lists)"
    by (simp add: ex_three_lists_def run_defs)
  note t = rate_limit_ends_pass [where u = ex_three_lists and pre = "[?a]" and n = "''Beta''"
      and e = ?b and post = "[?c]" and pre' = ?pre' and ?u1.0 = ?u1,
      THEN conjunct1, THEN mp, OF conjI [OF l conjI [OF before conjI [OF lim q]]]]
  from t have run: "sendMessages ex_three_lists =
        (Deferred, ?u1\<lparr>scheduler := scheduler ?u1 @ [Enter 10 0 SendMessages],
                       twitterLists := ?pre' @ (''Beta'', ?b) # [?c]\<rparr>)"
    and pre': "?pre' = map (\<lambda>(n, e). (n, e\<lparr>messages := []\<rparr>)) [?a]"
    and sch: "scheduler ?u1 = scheduler ex_three_lists" and flag: "sendingMessages ?u1"
    by simp_all
  have r1: "fst (sendMessages ex_three_lists) = Deferred" using run by simp
  have r2: "twitterLists (snd (sendMessages ex_three_lists)) =
     [(''Alpha'', \<lparr>lid = 1, channelID = Some ''1'', messages = []\<rparr>),
      (''Beta'', ?b), ?c]"
    unfolding run pre' by simp
  have r3: "calls (discordClient (snd (sendMessages ex_three_lists))) =
     [(CreateChannelMessage (Some ''1'') ''a'', True)]"
    unfolding run using c(1) by simp
  have r4: "scheduler (snd (sendMessages ex_three_lists)) = [Enter 10 0 SendMessages]"
    unfolding run using sch c(2) by simp
  have r5: "sendingMessages (snd (sendMessages ex_three_lists))"
    unfolding run using flag by simp
  from l free r1 r2 r3 r4 r5 show ?thesis by (intro conjI)
qed

text \<open>
  The second list's channel is not rate limited, yet the pass that stops at the first
  list sends nothing to it and leaves its message queued.
\<close>

theorem rate_limit_blocks_others_counterexample:
  "\<not> atRateLimit (makeURL CHANNEL_MESSAGES (Some ''2'')) (discordClient ex_two_lists) \<and>
   fst (sendMessages ex_two_lists) = Deferred \<and>
   twitterLists (snd (sendMessages ex_two_lists)) =
     [(''Alpha'', \<lparr>lid = 1, channelID = Some ''1'', messages = [''a'']\<rparr>),
      (''Beta'', \<lparr>lid = 2, channelID = Some ''2'', messages = [''b'']\<rparr>)] \<and>
   calls (discordClient (snd (sendMessages ex_two_lists))) = []"
  by (simp add: ex_two_lists_def run_defs)


section \<open>The channels that are sorted\<close>

lemma replied_channels_same: "replied_channels d i i = []"
  by (simp add: replied_channels_def)

lemma replied_channels_replies:
  "replies d' = replies d \<Longrightarrow> replied_channels d' i j = replied_channels d i j"
  by (simp add: replied_channels_def)

lemma replied_channels_append:
  "replied_channels d i (i + a) @ replied_channels d (i + a) (i + a + b) =
     replied_channels d i (i + a + b)"
proof -
  have "[i..<i + a + b] = [i..<i + a] @ [i + a..<i + a + b]"
    by (rule upt_add_eq_append) simp
  then show ?thesis unfolding replied_channels_def by (simp only: map_append concat_append)
qed

lemma replied_channels_one:
  assumes "replies d i = Some r" "r_json r = Channel c"
  shows "replied_channels d i (Suc i) = [c]"
  using assms by (simp add: replied_channels_def)

lemma awaitRateLimit_served: "served (awaitRateLimit url d) = served d"
proof (induction url d rule: awaitRateLimit.induct)
  case (1 url d)
  show ?case
  proof (cases "atRateLimit url d")
    case True
    with "1.IH" show ?thesis by (subst awaitRateLimit.simps) simp
  next
    case False
    then show ?thesis by (subst awaitRateLimit.simps) simp
  qed
qed

lemma awaitRateLimit_replies: "replies (awaitRateLimit url d) = replies d"
proof (induction url d rule: awaitRateLimit.induct)
  case (1 url d)
  show ?case
  proof (cases "atRateLimit url d")
    case True
    with "1.IH" show ?thesis by (subst awaitRateLimit.simps) simp
  next
    case False
    then show ?thesis by (subst awaitRateLimit.simps) simp
  qed
qed

lemma checked_channel:
  assumes "checked c d = (Inr (Channel ch), d')"
  shows "\<exists>r. replies d (served d) = Some r \<and> r_json r = Channel ch \<and>
             replies d' = replies d \<and> served d' = Suc (served d) \<and>
             calls d' = calls d @ [(c, True)]"
  using assms
  by (auto simp: checked_def request_def checkResponse_def split: option.splits if_splits)

lemma created_in_refl: "created_in cat [] s s"
  by (simp add: created_in_def replied_channels_same)

lemma created_in_trans:
  assumes "created_in cat ns s s1" "created_in cat ms s1 s2"
  shows "created_in cat (ns @ ms) s s2"
proof -
  let ?d = "discordClient (snd s)" and ?d1 = "discordClient (snd s1)"
    and ?d2 = "discordClient (snd s2)"
  let ?i = "served ?d"
  note a = assms(1) [unfolded created_in_def Let_def]
  note a1 = a [THEN conjunct1]
    and a2 = a [THEN conjunct2, THEN conjunct1]
    and a3 = a [THEN conjunct2, THEN conjunct2, THEN conjunct1]
    and a4 = a [THEN conjunct2, THEN conjunct2, THEN conjunct2, THEN conjunct1]
    and a5 = a [THEN conjunct2, THEN conjunct2, THEN conjunct2, THEN conjunct2, THEN conjunct1]
    and a6 = a [THEN conjunct2, THEN conjunct2, THEN conjunct2, THEN conjunct2, THEN conjunct2]
  note b = assms(2) [unfolded created_in_def Let_def]
  note b1 = b [THEN conjunct1]
    and b2 = b [THEN conjunct2, THEN conjunct1]
    and b3 = b [THEN conjunct2, THEN conjunct2, THEN conjunct1]
    and b4 = b [THEN conjunct2, THEN conjunct2, THEN conjunct2, THEN conjunct1]
    and b5 = b [THEN conjunct2, THEN conjunct2, THEN conjunct2, THEN conjunct2, THEN conjunct1]
    and b6 = b [THEN conjunct2, THEN conjunct2, THEN conjunct2, THEN conjunct2, THEN conjunct2]
  have r: "replied_channels ?d1 (served ?d1) (served ?d1 + length ms) =
           replied_channels ?d (?i + length ns) (?i + length ns + length ms)"
    unfolding a4 using a3 by (rule replied_channels_replies)
  note j = replied_channels_append [of ?d ?i "length ns" "length ms"]
  have c1: "fst s2 = fst s @ replied_channels ?d ?i (?i + length (ns @ ms))"
    unfolding b1 r a1 using j by (simp add: add.assoc)
  have "length (replied_channels ?d ?i (?i + length ns + length ms)) = length ns + length ms"
    unfolding j [symmetric] using a2 b2 [unfolded r] by simp
  then have c2: "length (replied_channels ?d ?i (?i + length (ns @ ms))) = length (ns @ ms)"
    by (simp add: add.assoc)
  have c3: "replies ?d2 = replies ?d" using a3 b3 by simp
  have c4: "served ?d2 = ?i + length (ns @ ms)" using a4 b4 by simp
  have c5: "guildID (snd s2) = guildID (snd s)" using a5 b5 by simp
  have c6: "calls ?d2 = calls ?d @
       map (\<lambda>n. (CreateGuildChannel (guildID (snd s)) (Some n) GUILD_TEXT
                          (Some (cid cat)), True)) (ns @ ms)"
    unfolding b6 a6 a5 by simp
  show ?thesis unfolding created_in_def Let_def using c1 c2 c3 c4 c5 c6 by (intro conjI)
qed

lemma bindList_created:
  assumes "bindList cat n e (cur, u) = (Done, e', cur', u')"
  shows "\<exists>names. created_in cat names (cur, u) (cur', u') \<and>
                 set names \<subseteq> {n} \<and> (channelID e \<noteq> None \<longrightarrow> names = [])"
proof (cases "channelID e")
  case (Some c)
  with assms have "cur' = cur" "u' = u" by (auto simp: bindList_def)
  with created_in_refl [of cat "(cur, u)"] show ?thesis by auto
next
  case None
  show ?thesis
  proof (cases "find (\<lambda>channel. parent_id channel = Some (cid cat)
                                   \<and> cname channel = lower n) cur")
    case (Some c)
    with assms None have "cur' = cur" "u' = u" by (auto simp: bindList_def)
    with created_in_refl [of cat "(cur, u)"] show ?thesis by auto
  next
    case nf: None
    let ?d = "awaitRateLimit (makeURL GUILD_CHANNELS (Some (guildID u))) (discordClient u)"
    let ?c = "CreateGuildChannel (guildID u) (Some n) GUILD_TEXT (Some (cid cat))"
    obtain res d' where cg: "checked ?c ?d = (res, d')" by (cases "checked ?c ?d")
    show ?thesis
    proof (cases res)
      case (Inl err)
      with assms None nf cg show ?thesis
        by (auto simp: bindList_def createGuildChannel_def Let_def)
    next
      case (Inr b)
      show ?thesis
      proof (cases b)
        case (Channel ch)
        with assms None nf cg Inr have r: "cur' = cur @ [ch]" "u' = u\<lparr>discordClient := d'\<rparr>"
          by (auto simp: bindList_def createGuildChannel_def Let_def)
        from checked_channel [OF cg [unfolded Inr Channel]]
        obtain rp where w: "replies (discordClient u) (served (discordClient u)) = Some rp"
          "r_json rp = Channel ch" "replies d' = replies (discordClient u)"
          "served d' = Suc (served (discordClient u))"
          "calls d' = calls (discordClient u) @ [(?c, True)]"
          unfolding awaitRateLimit_served awaitRateLimit_replies awaitRateLimit_calls by blast
        from replied_channels_one [OF w(1,2)]
        have "created_in cat [n] (cur, u) (cur', u')"
          using r w(3,4,5) by (simp add: created_in_def Let_def)
        with None show ?thesis by auto
      qed (use assms None nf cg Inr in \<open>auto simp: bindList_def createGuildChannel_def Let_def\<close>)
    qed
  qed
qed

lemma bind_all_created:
  "for_each_list (bindList cat) tls s = (Done, tls', s') \<Longrightarrow>
     \<exists>names. created_in cat names s s' \<and>
       set names \<subseteq> fst ` {x \<in> set tls. channelID (snd x) = None}"
proof (induction tls arbitrary: s tls')
  case Nil
  then show ?case using created_in_refl by auto
next
  case (Cons a tls)
  obtain n e where a: "a = (n, e)" by (cases a)
  from Cons.prems [unfolded a] show ?case
  proof (cases rule: for_each_list_Cons_cases)
    case (stop e1)
    then show ?thesis by simp
  next
    case (go e1 s1 rest')
    obtain c0 u0 c1 u1 where p: "s = (c0, u0)" "s1 = (c1, u1)" by (cases s, cases s1)
    from bindList_created [of cat n e c0 u0 e1 c1 u1] go(1) p
    obtain ns where ns: "created_in cat ns s s1" "set ns \<subseteq> {n}"
      "channelID e \<noteq> None \<longrightarrow> ns = []" by auto
    from Cons.IH [OF go(2)] obtain ms where
      ms: "created_in cat ms s1 s'" "set ms \<subseteq> fst ` {x \<in> set tls. channelID (snd x) = None}"
      by blast
    have "set ns \<subseteq> fst ` {x \<in> set (a # tls). channelID (snd x) = None}"
    proof (cases "channelID e")
      case None
      with ns(2) a show ?thesis by force
    next
      case (Some c)
      with ns(3) show ?thesis by simp
    qed
    moreover have "set ms \<subseteq> fst ` {x \<in> set (a # tls). channelID (snd x) = None}"
      using ms(2) by auto
    ultimately have "set (ns @ ms) \<subseteq> fst ` {x \<in> set (a # tls). channelID (snd x) = None}"
      by simp
    with created_in_trans [OF ns(1) ms(1)] show ?thesis by blast
  qed
qed

text \<open>
  When \<open>createMissing\<close> ends well, its channels are the fetched channels under the
  category that \<open>ensureCategory\<close> found or created, followed by the channels that
  answered the creation requests of the loop, which ask for text channels under that
  category named after lists that had no channel.
\<close>

lemma createMissing_managed:
  assumes "createMissing u = (Done, cur, u1)"
  shows "\<exists>fetched d cat u0 names.
           getGuildChannels (guildID u) (discordClient u) = (Inr (Channels fetched), d) \<and>
           ensureCategory fetched (u\<lparr>discordClient := d\<rparr>) = (Inr cat, u0) \<and>
           created_in cat names
             (filter (\<lambda>channel. parent_id channel = Some (cid cat)) fetched, u0) (cur, u1) \<and>
           set names \<subseteq> fst ` {x \<in> set (twitterLists u). channelID (snd x) = None}"
proof -
  obtain res d where g: "getGuildChannels (guildID u) (discordClient u) = (res, d)"
    by (cases "getGuildChannels (guildID u) (discordClient u)")
  show ?thesis
  proof (cases res)
    case (Inl e)
    with assms g show ?thesis by (auto simp: createMissing_def)
  next
    case (Inr b)
    show ?thesis
    proof (cases b)
      case (Channels fetched)
      let ?u0 = "u\<lparr>discordClient := d\<rparr>"
      obtain r u0 where ec: "ensureCategory fetched ?u0 = (r, u0)"
        by (cases "ensureCategory fetched ?u0")
      show ?thesis
      proof (cases r)
        case (Inl e)
        with assms g Inr Channels ec show ?thesis by (simp add: createMissing_def)
      next
        case cat: (Inr cat)
        let ?cur = "filter (\<lambda>channel. parent_id channel = Some (cid cat)) fetched"
        obtain out1 tls' cur' u2 where
          l: "for_each_list (bindList cat) (twitterLists u0) (?cur, u0) = (out1, tls', cur', u2)"
          by (cases "for_each_list (bindList cat) (twitterLists u0) (?cur, u0)") auto
        with assms g Inr Channels ec cat
        have r: "out1 = Done" "cur = cur'" "u1 = u2\<lparr>twitterLists := tls'\<rparr>"
          by (simp_all add: createMissing_def)
        from ensureCategory_frame [OF ec] have tl: "twitterLists u0 = twitterLists u" by simp
        from bind_all_created [OF l [unfolded r(1)]] obtain names where
          n: "created_in cat names (?cur, u0) (cur', u2)"
          "set names \<subseteq> fst ` {x \<in> set (twitterLists u0). channelID (snd x) = None}"
          by blast
        have "created_in cat names (?cur, u0) (cur, u1)"
          using n(1) unfolding r(2,3) created_in_def Let_def by simp
        moreover have "getGuildChannels (guildID u) (discordClient u) = (Inr (Channels fetched), d)"
          using g Inr Channels by simp
        moreover have "ensureCategory fetched (u\<lparr>discordClient := d\<rparr>) = (Inr cat, u0)"
          using ec cat by simp
        moreover have "set names \<subseteq> fst ` {x \<in> set (twitterLists u). channelID (snd x) = None}"
          using n(2) tl by simp
        ultimately show ?thesis by blast
      qed
    qed (use assms g Inr in \<open>auto simp: createMissing_def\<close>)
  qed
qed


subsection \<open>Claim C5\<close>

text \<open>
  C5.  When the channels have been fetched and the missing ones created, the channels
  of \<open>channelMaintenance\<close> are the channels of the guild's listing under the category
  that \<open>ensureCategory\<close> found or created, followed by the channels with which the
  guild answered the creation requests of the loop, one request and one channel for
  each name, each request for a text channel under that category named after a list
  that had no channel.  The target order is these channels sorted by name (a stable
  sort): in order of name, with the channels of each name as they were.  The batch has
  the pair of channel id and index for exactly the indices at which the sorted list
  and the list before the sort hold different channels, in ascending order of index;
  the only request after that point is one reposition request with this batch, and
  none when the batch is empty, which is exactly when the channels were already in
  order of name.  Channels named Zeta, Alpha, Mike give the order Alpha, Mike, Zeta and
  the batch that puts them at positions 0, 1, 2.
\<close>

theorem reposition_batch:
  assumes "createMissing u = (Done, currentChannels, u1)"
  shows "(\<exists>fetched d (cat :: channel) u0 names.
            getGuildChannels (guildID u) (discordClient u) = (Inr (Channels fetched), d) \<and>
            ensureCategory fetched (u\<lparr>discordClient := d\<rparr>) = (Inr cat, u0) \<and>
            created_in cat names
              (filter (\<lambda>channel. parent_id channel = Some (cid cat)) fetched, u0)
              (currentChannels, u1) \<and>
            set names \<subseteq> fst ` {x \<in> set (twitterLists u). channelID (snd x) = None}) \<and>
         sorted (map cname (sort_key cname currentChannels)) \<and>
         (\<forall>k. filter (\<lambda>c. cname c = k) (sort_key cname currentChannels) =
              filter (\<lambda>c. cname c = k) currentChannels) \<and>
         positionPairs currentChannels (sort_key cname currentChannels) =
           [(cid (sort_key cname currentChannels ! i), i).
              i \<leftarrow> [0..<length currentChannels],
              sort_key cname currentChannels ! i \<noteq> currentChannels ! i] \<and>
         map fst (calls (discordClient (snd (channelMaintenance u)))) =
           map fst (calls (discordClient u1)) @
             (if positionPairs currentChannels (sort_key cname currentChannels) = [] then []
              else [ModifyGuildChannelPositions (guildID u)
                      (positionPairs currentChannels (sort_key cname currentChannels))]) \<and>
         (positionPairs currentChannels (sort_key cname currentChannels) = []) =
           sorted (map cname currentChannels) \<and>
         (\<forall>z a m. cname z = ''Zeta'' \<and> cname a = ''Alpha'' \<and> cname m = ''Mike'' \<longrightarrow>
            sort_key cname [z, a, m] = [a, m, z] \<and>
            positionPairs [z, a, m] (sort_key cname [z, a, m]) =
              [(cid a, 0), (cid m, 1), (cid z, 2)])"
proof -
  have a: "\<exists>fetched d (cat :: channel) u0 names.
            getGuildChannels (guildID u) (discordClient u) = (Inr (Channels fetched), d) \<and>
            ensureCategory fetched (u\<lparr>discordClient := d\<rparr>) = (Inr cat, u0) \<and>
            created_in cat names
              (filter (\<lambda>channel. parent_id channel = Some (cid cat)) fetched, u0)
              (currentChannels, u1) \<and>
            set names \<subseteq> fst ` {x \<in> set (twitterLists u). channelID (snd x) = None}"
    using assms by (rule createMissing_managed)
  have b: "sorted (map cname (sort_key cname currentChannels))" by simp
  have c: "\<forall>k. filter (\<lambda>c. cname c = k) (sort_key cname currentChannels) =
              filter (\<lambda>c. cname c = k) currentChannels"
    by (simp add: sort_key_stable)
  have d: "positionPairs currentChannels (sort_key cname currentChannels) =
           [(cid (sort_key cname currentChannels ! i), i).
              i \<leftarrow> [0..<length currentChannels],
              sort_key cname currentChannels ! i \<noteq> currentChannels ! i]"
    using positionPairs_nth [of currentChannels "sort_key cname currentChannels"] by simp
  have e: "map fst (calls (discordClient (snd (channelMaintenance u)))) =
           map fst (calls (discordClient u1)) @
             (if positionPairs currentChannels (sort_key cname currentChannels) = [] then []
              else [ModifyGuildChannelPositions (guildID u)
                      (positionPairs currentChannels (sort_key cname currentChannels))])"
    using assms by (rule channelMaintenance_log)
  have f: "(positionPairs currentChannels (sort_key cname currentChannels) = []) =
           sorted (map cname currentChannels)"
    by (rule positionPairs_sorted)
  have g: "\<forall>z a m. cname z = ''Zeta'' \<and> cname a = ''Alpha'' \<and> cname m = ''Mike'' \<longrightarrow>
            sort_key cname [z, a, m] = [a, m, z] \<and>
            positionPairs [z, a, m] (sort_key cname [z, a, m]) =
              [(cid a, 0), (cid m, 1), (cid z, 2)]"
    using zeta_alpha_mike by blast
  from a b c d e f g show ?thesis by (intro conjI)
qed

theorem reposition_batch_witness:
  "createMissing ex_unsorted =
     (Done, [text_channel ''1'' ''Zeta'' 0, text_channel ''2'' ''Alpha'' 1,
             text_channel ''3'' ''Mike'' 2], snd (snd (createMissing ex_unsorted))) \<and>
   map fst (calls (discordClient (snd (channelMaintenance ex_unsorted)))) =
     [GetGuildChannels ''g'',
      ModifyGuildChannelPositions ''g'' [(''2'', 0), (''3'', 1), (''1'', 2)]] \<and>
   createMissing ex_sorted =
     (Done, [text_channel ''2'' ''Alpha'' 0, text_channel ''3'' ''Mike'' 1,
             text_channel ''1'' ''Zeta'' 2], snd (snd (createMissing ex_sorted))) \<and>
   map fst (calls (discordClient (snd (channelMaintenance ex_sorted)))) =
     [GetGuildChannels ''g''] \<and>
   createMissing ex_create =
     (Done, [text_channel ''7'' ''news'' 0, text_channel ''9'' ''alpha'' 1],
      snd (snd (createMissing ex_create))) \<and>
   map fst (calls (discordClient (snd (snd (createMissing ex_create))))) =
     [GetGuildChannels ''g'',
      CreateGuildChannel ''g'' (Some ''alpha'') GUILD_TEXT (Some (cid ex_category))] \<and>
   map fst (calls (discordClient (snd (channelMaintenance ex_create)))) =
     [GetGuildChannels ''g'',
      CreateGuildChannel ''g'' (Some ''alpha'') GUILD_TEXT (Some (cid ex_category)),
      ModifyGuildChannelPositions ''g'' [(''9'', 0), (''7'', 1)]]"
proof -
  let ?z = "text_channel ''1'' ''Zeta'' 0" and ?a = "text_channel ''2'' ''Alpha'' 1"
    and ?m = "text_channel ''3'' ''Mike'' 2"
  let ?a' = "text_channel ''2'' ''Alpha'' 0" and ?m' = "text_channel ''3'' ''Mike'' 1"
    and ?z' = "text_channel ''1'' ''Zeta'' 2"
  let ?n = "text_channel ''7'' ''news'' 0" and ?c = "text_channel ''9'' ''alpha'' 1"
  have c1: "fst (createMissing ex_unsorted) = Done"
    "fst (snd (createMissing ex_unsorted)) = [?z, ?a, ?m]"
    "map fst (calls (discordClient (snd (snd (createMissing ex_unsorted))))) =
       [GetGuildChannels ''g'']"
    "guildID ex_unsorted = ''g''"
    by (simp_all add: ex_unsorted_def bound_lists_def run_defs)
  have c2: "fst (createMissing ex_sorted) = Done"
    "fst (snd (createMissing ex_sorted)) = [?a', ?m', ?z']"
    "map fst (calls (discordClient (snd (snd (createMissing ex_sorted))))) =
       [GetGuildChannels ''g'']"
    by (simp_all add: ex_sorted_def bound_lists_def run_defs)
  have c3: "fst (createMissing ex_create) = Done"
    "fst (snd (createMissing ex_create)) = [?n, ?c]"
    "map fst (calls (discordClient (snd (snd (createMissing ex_create))))) =
       [GetGuildChannels ''g'',
        CreateGuildChannel ''g'' (Some ''alpha'') GUILD_TEXT (Some (cid ex_category))]"
    "guildID ex_create = ''g''"
    by (simp_all add: ex_create_def run_defs)
  have p1: "createMissing ex_unsorted = (Done, [?z, ?a, ?m], snd (snd (createMissing ex_unsorted)))"
    using c1(1,2) by (metis prod.collapse)
  have p2: "createMissing ex_sorted = (Done, [?a', ?m', ?z'], snd (snd (createMissing ex_sorted)))"
    using c2(1,2) by (metis prod.collapse)
  have p3: "createMissing ex_create = (Done, [?n, ?c], snd (snd (createMissing ex_create)))"
    using c3(1,2) by (metis prod.collapse)
  have n: "cname ?z = ''Zeta''" "cname ?a = ''Alpha''" "cname ?m = ''Mike''"
    "cid ?z = ''1''" "cid ?a = ''2''" "cid ?m = ''3''"
    by (simp_all add: text_channel_def)
  note t1 = reposition_batch [OF p1]
  note log1 = t1 [THEN conjunct2, THEN conjunct2, THEN conjunct2, THEN conjunct2, THEN conjunct1]
  note zam = t1 [THEN conjunct2, THEN conjunct2, THEN conjunct2, THEN conjunct2, THEN conjunct2,
      THEN conjunct2, THEN spec, THEN spec, THEN spec, THEN mp, THEN conjunct2,
      of ?z ?a ?m]
  have pairs: "positionPairs [?z, ?a, ?m] (sort_key cname [?z, ?a, ?m]) =
      [(''2'', 0), (''3'', 1), (''1'', 2)]"
    using zam n by simp
  have r1: "map fst (calls (discordClient (snd (channelMaintenance ex_unsorted)))) =
     [GetGuildChannels ''g'',
      ModifyGuildChannelPositions ''g'' [(''2'', 0), (''3'', 1), (''1'', 2)]]"
    using log1 by (simp only: pairs c1) simp
  note t2 = reposition_batch [OF p2]
  note log2 = t2 [THEN conjunct2, THEN conjunct2, THEN conjunct2, THEN conjunct2, THEN conjunct1]
  note empty2 = t2 [THEN conjunct2, THEN conjunct2, THEN conjunct2, THEN conjunct2,
      THEN conjunct2, THEN conjunct1]
  have srt: "sorted (map cname [?a', ?m', ?z'])" by (simp add: text_channel_def)
  have e: "positionPairs [?a', ?m', ?z'] (sort_key cname [?a', ?m', ?z']) = []"
    using empty2 srt by (simp only:)
  have r2: "map fst (calls (discordClient (snd (channelMaintenance ex_sorted)))) =
     [GetGuildChannels ''g'']"
    using log2 by (simp only: e c2) simp
  note t3 = reposition_batch [OF p3]
  note log3 = t3 [THEN conjunct2, THEN conjunct2, THEN conjunct2, THEN conjunct2, THEN conjunct1]
  have pairs3: "positionPairs [?n, ?c] (sort_key cname [?n, ?c]) = [(''9'', 0), (''7'', 1)]"
    by (simp add: run_defs)
  have r3: "map fst (calls (discordClient (snd (channelMaintenance ex_create)))) =
     [GetGuildChannels ''g'',
      CreateGuildChannel ''g'' (Some ''alpha'') GUILD_TEXT (Some (cid ex_category)),
      ModifyGuildChannelPositions ''g'' [(''9'', 0), (''7'', 1)]]"
    using log3 by (simp only: pairs3 c3) simp
  from p1 r1 p2 r2 p3 c3(3) r3 show ?thesis by (intro conjI)
qed


subsection \<open>Claim C3\<close>

text \<open>
  C3.  A second call of \<open>channelMaintenance\<close>, with nothing changed in the guild between
  the two calls but what the first call asked for, creates no channel here, but it
  does issue a reposition request.  The guild has the category and the channels Zeta,
  Alpha and Mike under it, each bound to its list.  In \<open>ex_by_position\<close> the guild
  lists its channels by position, and the positions start at 3, 4, 5: the first call
  names only the two channels whose place in the listing differs, the guild moves
  them to positions 1 and 2, the next listing is Mike, Zeta, Alpha, and the second
  call repositions all three.  In \<open>ex_unsorted\<close> the guild lists its channels in the
  same order at every listing: the first call asks for positions 0, 1, 2 by name, the
  guild accepts, and the second call issues the same request again.  The sorted
  channels are compared with the order of the listing; the position of a channel is
  never read.
\<close>

theorem second_maintenance_repositions:
  "fst (channelMaintenance ex_by_position) = Done \<and>
   fst (channelMaintenance (snd (channelMaintenance ex_by_position))) = Done \<and>
   map fst (calls (discordClient (snd (channelMaintenance (snd (channelMaintenance ex_by_position)))))) =
     [GetGuildChannels ''g'',
      ModifyGuildChannelPositions ''g'' [(''3'', 1), (''1'', 2)],
      GetGuildChannels ''g'',
      ModifyGuildChannelPositions ''g'' [(''2'', 0), (''3'', 1), (''1'', 2)]] \<and>
   fst (channelMaintenance ex_unsorted) = Done \<and>
   fst (channelMaintenance (snd (channelMaintenance ex_unsorted))) = Done \<and>
   map fst (calls (discordClient (snd (channelMaintenance (snd (channelMaintenance ex_unsorted)))))) =
     [GetGuildChannels ''g'',
      ModifyGuildChannelPositions ''g'' [(''2'', 0), (''3'', 1), (''1'', 2)],
      GetGuildChannels ''g'',
      ModifyGuildChannelPositions ''g'' [(''2'', 0), (''3'', 1), (''1'', 2)]]"
  by (simp add: ex_unsorted_def ex_by_position_def bound_lists_def run_defs)

end
